theory Spec2Isabelle
  imports Main "HOL-Library.Char_ord" "HOL-Library.List_Lexorder" "HOL-Library.Multiset"
begin

section \<open>The sample backend: posts CRUD and bearer-token authentication\<close>

text \<open>
  The development follows \<^verbatim>\<open>src/server.js\<close> (the variant with the \<^verbatim>\<open>users\<close> table and
  the \<^verbatim>\<open>/api/auth\<close> routes).  Every route handler is a function from the request data it
  reads, the clock values it reads and the database to a response (and to the new
  database, when it writes).

  Conventions of the model.
  \<^item> Text is a \<^typ>\<open>string\<close>: the bytes of its UTF-8 form, which is what SQLite stores and
    what \<^verbatim>\<open>Buffer.from(text)\<close> produces.  This holds for request headers and body fields as
    for stored columns.  A JavaScript string with an unpaired surrogate has no such form
    and is outside the model.
  \<^item> A JavaScript number is a \<^verbatim>\<open>jsnum\<close>: NaN, an infinity, or a finite 64-bit float, kept
    as the dyadic fraction it is.  \<^verbatim>\<open>Number(text)\<close> rounds the value of a literal to the
    nearest float, ties to even, and to an infinity beyond the largest float.  The two
    zeros are not told apart: no handler tells them apart.
  \<^item> \<^verbatim>\<open>String.prototype.toLowerCase\<close> maps text by the case tables of Unicode, which are
    part of the JavaScript engine and not of this repository.  The handlers that call it
    take it as their first argument, and every theorem about them holds for every such
    function.
  \<^item> A timestamp is the text \<^verbatim>\<open>toISOString()\<close> returns.  For four-digit years these texts
    have a fixed width and their lexicographic order is the order of time.
  \<^item> The tables are lists of rows in rowid order, with the \<^verbatim>\<open>sqlite_sequence\<close> counter that
    \<^verbatim>\<open>AUTOINCREMENT\<close> keeps.  A TEXT value is stored whole and compared whole; a row read
    into JavaScript has each TEXT column cut before its first zero byte, as
    \<^verbatim>\<open>node:sqlite\<close> returns it.  Rowids above \<open>2^53 - 1\<close> in size, which \<^verbatim>\<open>node:sqlite\<close>
    refuses to read as numbers, are outside the model.
  \<^item> Failures of the environment (I/O errors, a locked or full database) are outside the
    model.  The one error a statement raises from the table contents alone, the UNIQUE
    constraint on \<^verbatim>\<open>users.email\<close>, is a branch of the model.
\<close>

subsection \<open>JavaScript strings\<close>

text \<open>
  \<^verbatim>\<open>String.prototype.trim\<close> removes white space and line terminators from both ends:
  TAB, LF, VT, FF, CR, SP, U+00A0, U+1680, U+2000 to U+200A, U+2028, U+2029, U+202F,
  U+205F, U+3000 and U+FEFF, here in their UTF-8 forms of one, two or three bytes.
\<close>

definition ws1 :: "char \<Rightarrow> bool" where
  "ws1 a = (a \<in> {CHR 0x09, CHR 0x0A, CHR 0x0B, CHR 0x0C, CHR 0x0D, CHR 0x20})"

definition ws2 :: "char \<Rightarrow> char \<Rightarrow> bool" where
  "ws2 a b = (a = CHR 0xC2 \<and> b = CHR 0xA0)"

definition ws3 :: "char \<Rightarrow> char \<Rightarrow> char \<Rightarrow> bool" where
  "ws3 a b c =
     ((a = CHR 0xE1 \<and> b = CHR 0x9A \<and> c = CHR 0x80) \<or>
      (a = CHR 0xE2 \<and> b = CHR 0x80 \<and>
         ((CHR 0x80 \<le> c \<and> c \<le> CHR 0x8A) \<or> c = CHR 0xA8 \<or> c = CHR 0xA9 \<or> c = CHR 0xAF)) \<or>
      (a = CHR 0xE2 \<and> b = CHR 0x81 \<and> c = CHR 0x9F) \<or>
      (a = CHR 0xE3 \<and> b = CHR 0x80 \<and> c = CHR 0x80) \<or>
      (a = CHR 0xEF \<and> b = CHR 0xBB \<and> c = CHR 0xBF))"

text \<open>
  One stripping loop serves both ends: \<open>strip_ws False\<close> reads the text forwards,
  \<open>strip_ws True\<close> reads the reversed text, where the bytes of a character come last
  byte first.
\<close>

fun strip_ws :: "bool \<Rightarrow> string \<Rightarrow> string" where
  "strip_ws bw (a # b # c # r) =
     (if ws1 a then strip_ws bw (b # c # r)
      else if (if bw then ws2 b a else ws2 a b) then strip_ws bw (c # r)
      else if (if bw then ws3 c b a else ws3 a b c) then strip_ws bw r
      else a # b # c # r)"
| "strip_ws bw [a, b] =
     (if ws1 a then strip_ws bw [b]
      else if (if bw then ws2 b a else ws2 a b) then []
      else [a, b])"
| "strip_ws bw [a] = (if ws1 a then [] else [a])"
| "strip_ws bw [] = []"

definition trimStart :: "string \<Rightarrow> string" where
  "trimStart s = strip_ws False s"

definition trimEnd :: "string \<Rightarrow> string" where
  "trimEnd s = rev (strip_ws True (rev s))"

definition trim :: "string \<Rightarrow> string" where
  "trim s = trimEnd (trimStart s)"

definition startsWith :: "string \<Rightarrow> string \<Rightarrow> bool" where
  "startsWith s p = (take (length p) s = p)"

text \<open>\<^verbatim>\<open>s.split(sep)\<close> for a one-character separator: never an empty array.\<close>

fun split :: "char \<Rightarrow> string \<Rightarrow> string list" where
  "split sep [] = [[]]"
| "split sep (c # cs) =
     (if c = sep then [] # split sep cs
      else (case split sep cs of
              [] \<Rightarrow> [[c]]
            | p # ps \<Rightarrow> (c # p) # ps))"

subsection \<open>JavaScript numbers\<close>

text \<open>
  \<open>Finite m k\<close> is the number \<open>m / 2^k\<close>.  It is kept in lowest terms (\<open>k = 0\<close>, or
  \<open>m\<close> is odd), so that two numbers are equal exactly when their representations are,
  and a number is an integer exactly when \<open>k = 0\<close>.  Every finite 64-bit float has this
  form.
\<close>

datatype jsnum = NaN | PosInfinity | NegInfinity | Finite int nat

definition Number_isInteger :: "jsnum \<Rightarrow> bool" where
  "Number_isInteger x = (case x of Finite m k \<Rightarrow> k = 0 | _ \<Rightarrow> False)"

text \<open>
  The Number of an integer that a float holds exactly, as every rowid of the model and
  every reading of \<^verbatim>\<open>Date.now()\<close> is.
\<close>

definition of_integer :: "int \<Rightarrow> jsnum" where
  "of_integer i = Finite i 0"

fun lowest_terms :: "int \<Rightarrow> nat \<Rightarrow> jsnum" where
  "lowest_terms m 0 = Finite m 0"
| "lowest_terms m (Suc k) =
     (if even m then lowest_terms (m div 2) k else Finite m (Suc k))"

text \<open>The number of binary digits of a positive integer.\<close>

function bitlen :: "int \<Rightarrow> int" where
  "bitlen n = (if n \<le> 0 then 0 else 1 + bitlen (n div 2))"
  by pat_completeness auto
termination
  by (relation "measure nat") auto

declare bitlen.simps [simp del]

text \<open>
  \<open>floor_log2 n d\<close> is the exponent \<open>e\<close> with \<open>2^e \<le> n / d < 2^(e + 1)\<close>, for positive
  \<open>n\<close> and \<open>d\<close>: the difference of the bit lengths, or one less.
\<close>

definition floor_log2 :: "int \<Rightarrow> int \<Rightarrow> int" where
  "floor_log2 n d =
     (let e = bitlen n - bitlen d
      in if (if 0 \<le> e then d * 2 ^ nat e \<le> n else d \<le> n * 2 ^ nat (- e)) then e else e - 1)"

text \<open>
  \<^verbatim>\<open>RoundMVResult\<close> of ECMAScript: the Number for the mathematical value \<open>n / d\<close>
  (\<open>n \<ge> 0\<close>, \<open>d > 0\<close>).  A float with exponent \<open>e\<close> is a multiple of \<open>2^(e - 52)\<close>, and of
  \<open>2^(- 1074)\<close> at least; the value is rounded to the nearest such multiple, to the even
  one of two equally near, and to infinity when the result reaches \<open>2^1024\<close>.
\<close>

definition RoundMVResult :: "int \<Rightarrow> int \<Rightarrow> jsnum" where
  "RoundMVResult n d =
     (if n = 0 then Finite 0 0
      else
        let q = max (floor_log2 n d - 52) (- 1074);
            N = (if q < 0 then n * 2 ^ nat (- q) else n);
            D = (if q < 0 then d else d * 2 ^ nat q);
            f = N div D;
            r = N mod D;
            m = (if 2 * r < D then f else if D < 2 * r then f + 1 else if even f then f else f + 1)
        in if 0 \<le> q then (if 2 ^ 1024 \<le> m * 2 ^ nat q then PosInfinity else Finite (m * 2 ^ nat q) 0)
           else lowest_terms m (nat (- q)))"

definition negate :: "jsnum \<Rightarrow> jsnum" where
  "negate x =
     (case x of
        NaN \<Rightarrow> NaN
      | PosInfinity \<Rightarrow> NegInfinity
      | NegInfinity \<Rightarrow> PosInfinity
      | Finite m k \<Rightarrow> Finite (- m) k)"

definition isDecimalDigit :: "char \<Rightarrow> bool" where
  "isDecimalDigit c = (CHR ''0'' \<le> c \<and> c \<le> CHR ''9'')"

definition isHexDigit :: "char \<Rightarrow> bool" where
  "isHexDigit c =
     (isDecimalDigit c \<or> (CHR ''a'' \<le> c \<and> c \<le> CHR ''f'') \<or> (CHR ''A'' \<le> c \<and> c \<le> CHR ''F''))"

definition isOctalDigit :: "char \<Rightarrow> bool" where
  "isOctalDigit c = (CHR ''0'' \<le> c \<and> c \<le> CHR ''7'')"

definition isBinaryDigit :: "char \<Rightarrow> bool" where
  "isBinaryDigit c = (c = CHR ''0'' \<or> c = CHR ''1'')"

definition digitValue :: "char \<Rightarrow> int" where
  "digitValue c =
     (if isDecimalDigit c then of_char c - 48
      else if CHR ''a'' \<le> c \<and> c \<le> CHR ''f'' then of_char c - 87
      else of_char c - 55)"

definition digitsValue :: "int \<Rightarrow> string \<Rightarrow> int" where
  "digitsValue base ds = foldl (\<lambda>acc c. base * acc + digitValue c) 0 ds"

text \<open>
  The grammar \<^verbatim>\<open>StringNumericLiteral\<close> of ECMAScript, which \<^verbatim>\<open>Number(text)\<close> applies:
  optional white space around an optional literal; the literal is \<^verbatim>\<open>Infinity\<close>, a
  decimal literal with optional sign, fraction and exponent, or an unsigned binary,
  octal or hexadecimal integer.  Empty text is 0; text outside the grammar is NaN.  The
  value of a literal is rounded by \<open>RoundMVResult\<close>.
\<close>

definition ExponentPart :: "string \<Rightarrow> int option" where
  "ExponentPart s =
     (case s of
        [] \<Rightarrow> Some 0
      | e # r \<Rightarrow>
          if e \<noteq> CHR ''e'' \<and> e \<noteq> CHR ''E'' then None
          else (case r of
                  [] \<Rightarrow> None
                | sg # ds \<Rightarrow>
                    if sg = CHR ''+'' \<or> sg = CHR ''-'' then
                      (if ds \<noteq> [] \<and> list_all isDecimalDigit ds
                       then Some ((if sg = CHR ''-'' then - 1 else 1) * digitsValue 10 ds)
                       else None)
                    else if list_all isDecimalDigit r then Some (digitsValue 10 r)
                    else None))"

definition StrUnsignedDecimalLiteral :: "string \<Rightarrow> jsnum" where
  "StrUnsignedDecimalLiteral s =
     (if s = ''Infinity'' then PosInfinity
      else
        let ip = takeWhile isDecimalDigit s;
            r1 = dropWhile isDecimalDigit s;
            dot = (r1 \<noteq> [] \<and> hd r1 = CHR ''.'');
            fp = (if dot then takeWhile isDecimalDigit (tl r1) else []);
            r2 = (if dot then dropWhile isDecimalDigit (tl r1) else r1)
        in if ip = [] \<and> fp = [] then NaN
           else (case ExponentPart r2 of
                   None \<Rightarrow> NaN
                 | Some e \<Rightarrow>
                     let x = e - int (length fp)
                     in if 0 \<le> x then RoundMVResult (digitsValue 10 (ip @ fp) * 10 ^ nat x) 1
                        else RoundMVResult (digitsValue 10 (ip @ fp)) (10 ^ nat (- x))))"

definition NonDecimalIntegerLiteral :: "int \<Rightarrow> (char \<Rightarrow> bool) \<Rightarrow> string \<Rightarrow> jsnum" where
  "NonDecimalIntegerLiteral base ok ds =
     (if ds \<noteq> [] \<and> list_all ok ds then RoundMVResult (digitsValue base ds) 1 else NaN)"

definition StringToNumber :: "string \<Rightarrow> jsnum" where
  "StringToNumber s =
     (let t = trim s in
      if t = [] then Finite 0 0
      else if take 2 t = ''0x'' \<or> take 2 t = ''0X'' then NonDecimalIntegerLiteral 16 isHexDigit (drop 2 t)
      else if take 2 t = ''0o'' \<or> take 2 t = ''0O'' then NonDecimalIntegerLiteral 8 isOctalDigit (drop 2 t)
      else if take 2 t = ''0b'' \<or> take 2 t = ''0B'' then NonDecimalIntegerLiteral 2 isBinaryDigit (drop 2 t)
      else (case t of
              [] \<Rightarrow> NaN
            | c # r \<Rightarrow>
                if c = CHR ''+'' then StrUnsignedDecimalLiteral r
                else if c = CHR ''-'' then negate (StrUnsignedDecimalLiteral r)
                else StrUnsignedDecimalLiteral t))"

text \<open>
  \<^verbatim>\<open>String(n)\<close> for an integer \<open>n\<close> below \<open>10^21\<close> in size: its decimal digits, with a
  minus sign when negative.  Rowids and readings of \<^verbatim>\<open>Date.now()\<close> are such integers.
\<close>

definition digit_char :: "int \<Rightarrow> char" where
  "digit_char d = ''0123456789'' ! nat d"

function digits_of :: "int \<Rightarrow> string" where
  "digits_of n =
     (if n < 10 then [digit_char n]
      else digits_of (n div 10) @ [digit_char (n mod 10)])"
  by pat_completeness auto
termination
  by (relation "measure nat") auto

declare digits_of.simps [simp del]

definition String_of_int :: "int \<Rightarrow> string" where
  "String_of_int i = (if i < 0 then CHR ''-'' # digits_of (- i) else digits_of i)"

subsection \<open>Buffers: base64url and UTF-8\<close>

text \<open>
  \<^verbatim>\<open>Buffer.from(text)\<close> is the identity of the model, text being its UTF-8 bytes.
  \<^verbatim>\<open>buf.toString("base64url")\<close> writes the bits of the bytes, six at a time, in the URL-safe
  alphabet and without padding.
\<close>

definition base64url_alphabet :: string where
  "base64url_alphabet = ''ABCDEFGHIJKLMNOPQRSTUVWXYZabcdefghijklmnopqrstuvwxyz0123456789-_''"

definition bits_of_byte :: "char \<Rightarrow> bool list" where
  "bits_of_byte c =
     (case c of Char b0 b1 b2 b3 b4 b5 b6 b7 \<Rightarrow> [b7, b6, b5, b4, b3, b2, b1, b0])"

definition nat_of_bits :: "bool list \<Rightarrow> nat" where
  "nat_of_bits bs = foldl (\<lambda>n b. 2 * n + (if b then 1 else 0)) 0 bs"

definition bits_of_sextet :: "nat \<Rightarrow> bool list" where
  "bits_of_sextet n =
     [n div 32 mod 2 = 1, n div 16 mod 2 = 1, n div 8 mod 2 = 1,
      n div 4 mod 2 = 1, n div 2 mod 2 = 1, n mod 2 = 1]"

fun sextets :: "bool list \<Rightarrow> bool list list" where
  "sextets (a # b # c # d # e # f # r) = [a, b, c, d, e, f] # sextets r"
| "sextets [] = []"
| "sextets r = [take 6 (r @ replicate 5 False)]"

fun octets :: "bool list \<Rightarrow> string" where
  "octets (b7 # b6 # b5 # b4 # b3 # b2 # b1 # b0 # r) = Char b0 b1 b2 b3 b4 b5 b6 b7 # octets r"
| "octets r = []"

definition base64url_encode :: "string \<Rightarrow> string" where
  "base64url_encode bytes =
     map (\<lambda>s. base64url_alphabet ! nat_of_bits s) (sextets (concat (map bits_of_byte bytes)))"

text \<open>
  \<^verbatim>\<open>Buffer.from(text, "base64url")\<close> never fails.  Node's decoder accepts both base64
  alphabets, skips every character that belongs to neither, stops at the first
  \<^verbatim>\<open>=\<close>, and drops the bits of an incomplete last byte.
\<close>

definition unbase64 :: "char \<Rightarrow> nat option" where
  "unbase64 c =
     (if CHR ''A'' \<le> c \<and> c \<le> CHR ''Z'' then Some (of_char c - 65)
      else if CHR ''a'' \<le> c \<and> c \<le> CHR ''z'' then Some (of_char c - 71)
      else if CHR ''0'' \<le> c \<and> c \<le> CHR ''9'' then Some (of_char c + 4)
      else if c = CHR ''-'' \<or> c = CHR ''+'' then Some 62
      else if c = CHR ''_'' \<or> c = CHR ''/'' then Some 63
      else None)"

definition base64url_decode :: "string \<Rightarrow> string" where
  "base64url_decode s =
     octets (concat (map bits_of_sextet
       (List.map_filter unbase64 (takeWhile (\<lambda>c. c \<noteq> CHR ''='') s))))"

text \<open>
  \<^verbatim>\<open>buf.toString("utf8")\<close> never fails either: it decodes as the WHATWG decoder does,
  putting U+FFFD (the bytes EF BF BD) for every maximal ill-formed run and going on
  with the byte that ended the run.
\<close>

definition replacement :: string where
  "replacement = [CHR 0xEF, CHR 0xBF, CHR 0xBD]"

definition continuation :: "char \<Rightarrow> bool" where
  "continuation c = (CHR 0x80 \<le> c \<and> c \<le> CHR 0xBF)"

definition second_ok :: "char \<Rightarrow> char \<Rightarrow> bool" where
  "second_ok a b =
     (if a = CHR 0xE0 then CHR 0xA0 \<le> b \<and> b \<le> CHR 0xBF
      else if a = CHR 0xED then CHR 0x80 \<le> b \<and> b \<le> CHR 0x9F
      else if a = CHR 0xF0 then CHR 0x90 \<le> b \<and> b \<le> CHR 0xBF
      else if a = CHR 0xF4 then CHR 0x80 \<le> b \<and> b \<le> CHR 0x8F
      else continuation b)"

fun utf8_toString :: "string \<Rightarrow> string" where
  "utf8_toString [] = []"
| "utf8_toString (a # r) =
     (if a < CHR 0x80 then a # utf8_toString r
      else if CHR 0xC2 \<le> a \<and> a \<le> CHR 0xDF then
        (case r of
           [] \<Rightarrow> replacement
         | b # r1 \<Rightarrow>
             if continuation b then a # b # utf8_toString r1
             else replacement @ utf8_toString r)
      else if CHR 0xE0 \<le> a \<and> a \<le> CHR 0xEF then
        (case r of
           [] \<Rightarrow> replacement
         | b # r1 \<Rightarrow>
             if \<not> second_ok a b then replacement @ utf8_toString r
             else (case r1 of
                     [] \<Rightarrow> replacement
                   | c # r2 \<Rightarrow>
                       if continuation c then a # b # c # utf8_toString r2
                       else replacement @ utf8_toString r1))
      else if CHR 0xF0 \<le> a \<and> a \<le> CHR 0xF4 then
        (case r of
           [] \<Rightarrow> replacement
         | b # r1 \<Rightarrow>
             if \<not> second_ok a b then replacement @ utf8_toString r
             else (case r1 of
                     [] \<Rightarrow> replacement
                   | c # r2 \<Rightarrow>
                       if \<not> continuation c then replacement @ utf8_toString r1
                       else (case r2 of
                               [] \<Rightarrow> replacement
                             | d # r3 \<Rightarrow>
                                 if continuation d then a # b # c # d # utf8_toString r3
                                 else replacement @ utf8_toString r2)))
      else replacement @ utf8_toString r)"

subsection \<open>Responses\<close>

datatype json =
    JNull
  | JBool bool
  | JNum jsnum
  | JStr string
  | JArr "json list"
  | JObj "(string \<times> json) list"

record response =
  status :: nat
  body :: json

text \<open>
  \<^verbatim>\<open>res.status(status).json({ success: true, data })\<close>.  A property whose value is
  \<^verbatim>\<open>undefined\<close> is left out of the JSON text, so \<open>data\<close> is optional here.
\<close>

definition sendSuccess :: "json option \<Rightarrow> nat \<Rightarrow> response" where
  "sendSuccess data st =
     \<lparr>status = st,
      body = JObj ((''success'', JBool True) #
                   (case data of None \<Rightarrow> [] | Some d \<Rightarrow> [(''data'', d)]))\<rparr>"

definition sendError :: "string \<Rightarrow> nat \<Rightarrow> response" where
  "sendError error st =
     \<lparr>status = st,
      body = JObj [(''success'', JBool False),
                   (''error'', JStr (if error = [] then ''Unknown error'' else error))]\<rparr>"

text \<open>All property names that occur in a JSON value, at any depth.\<close>

primrec keys :: "json \<Rightarrow> string set" where
  "keys JNull = {}"
| "keys (JBool b) = {}"
| "keys (JNum n) = {}"
| "keys (JStr s) = {}"
| "keys (JArr xs) = \<Union> (set (map keys xs))"
| "keys (JObj kvs) = set (map fst kvs) \<union> \<Union> (set (map snd (map (map_prod id keys) kvs)))"

subsection \<open>Requests\<close>

text \<open>
  A parsed JSON body, as far as the handlers read it: a field is a string or is missing.
  \<^verbatim>\<open>String(body?.field || "")\<close> is the field, or the empty text when it is missing (or
  null, false or 0, which are not told apart from missing).  Field values of other
  types, which \<^verbatim>\<open>String\<close> would print, are outside the model.
\<close>

type_synonym reqbody = "string \<Rightarrow> string option"

definition field :: "reqbody \<Rightarrow> string \<Rightarrow> string" where
  "field b k = (case b k of None \<Rightarrow> [] | Some v \<Rightarrow> v)"

definition parseId :: "string \<Rightarrow> jsnum" where
  "parseId idParam = StringToNumber idParam"

definition validatePostInput :: "reqbody \<Rightarrow> string + string \<times> string" where
  "validatePostInput b =
     (let title = trim (field b ''title'');
          content = trim (field b ''content'')
      in if title = [] then Inl ''title is required.''
         else if content = [] then Inl ''content is required.''
         else Inr (title, content))"

subsection \<open>The database\<close>

type_synonym timestamp = string

record post =
  p_id :: int
  p_title :: string
  p_content :: string
  p_created_at :: timestamp
  p_updated_at :: timestamp

record user =
  u_id :: int
  u_name :: string
  u_email :: string
  u_password :: string
  u_created_at :: timestamp
  u_updated_at :: timestamp

record database =
  posts :: "post list"
  posts_seq :: int
  users :: "user list"
  users_seq :: int

definition empty_db :: database where
  "empty_db = \<lparr>posts = [], posts_seq = 0, users = [], users_seq = 0\<rparr>"

text \<open>
  \<^verbatim>\<open>INTEGER PRIMARY KEY AUTOINCREMENT\<close>: the new rowid is one more than the largest rowid
  the table has ever held, which SQLite takes from the table and from its
  \<^verbatim>\<open>sqlite_sequence\<close> counter.
\<close>

definition next_rowid :: "int \<Rightarrow> int list \<Rightarrow> int" where
  "next_rowid seq ids = max seq (fold max ids 0) + 1"

text \<open>
  A number bound to \<^verbatim>\<open>WHERE id = ?\<close> selects the rows whose integer id has that value.
\<close>

definition id_is :: "jsnum \<Rightarrow> int \<Rightarrow> bool" where
  "id_is x i = (x = of_integer i)"

text \<open>
  A row that \<^verbatim>\<open>.get\<close> or \<^verbatim>\<open>.all\<close> returns is a JavaScript object made from the stored
  row.  \<^verbatim>\<open>node:sqlite\<close> makes the string of a TEXT column from the stored bytes up to the
  first zero byte.
\<close>

definition column_text :: "string \<Rightarrow> string" where
  "column_text s = takeWhile (\<lambda>c. c \<noteq> CHR 0x00) s"

definition post_row :: "post \<Rightarrow> post" where
  "post_row p =
     \<lparr>p_id = p_id p, p_title = column_text (p_title p), p_content = column_text (p_content p),
      p_created_at = column_text (p_created_at p), p_updated_at = column_text (p_updated_at p)\<rparr>"

definition user_row :: "user \<Rightarrow> user" where
  "user_row u =
     \<lparr>u_id = u_id u, u_name = column_text (u_name u), u_email = column_text (u_email u),
      u_password = column_text (u_password u), u_created_at = column_text (u_created_at u),
      u_updated_at = column_text (u_updated_at u)\<rparr>"

text \<open>\<^verbatim>\<open>SELECT ... FROM posts WHERE id = ?\<close>, read with \<^verbatim>\<open>.get\<close>: the first row or nothing.\<close>

definition select_post :: "database \<Rightarrow> jsnum \<Rightarrow> post option" where
  "select_post db x = map_option post_row (find (\<lambda>p. id_is x (p_id p)) (posts db))"

text \<open>\<^verbatim>\<open>ORDER BY id DESC\<close>.\<close>

fun insert_desc :: "post \<Rightarrow> post list \<Rightarrow> post list" where
  "insert_desc p [] = [p]"
| "insert_desc p (q # qs) = (if p_id q \<le> p_id p then p # q # qs else q # insert_desc p qs)"

definition order_by_id_desc :: "post list \<Rightarrow> post list" where
  "order_by_id_desc ps = foldr insert_desc ps []"

definition select_posts_desc :: "database \<Rightarrow> post list" where
  "select_posts_desc db = map post_row (order_by_id_desc (posts db))"

text \<open>
  \<^verbatim>\<open>INSERT INTO posts (title, content, created_at, updated_at) VALUES (?, ?, ?, ?)\<close>,
  giving the new database and \<^verbatim>\<open>lastInsertRowid\<close>.
\<close>

definition insert_post :: "database \<Rightarrow> string \<Rightarrow> string \<Rightarrow> timestamp \<Rightarrow> timestamp \<Rightarrow> database \<times> int" where
  "insert_post db t c ca ua =
     (let i = next_rowid (posts_seq db) (map p_id (posts db))
      in (db\<lparr>posts := posts db @
                 [\<lparr>p_id = i, p_title = t, p_content = c, p_created_at = ca, p_updated_at = ua\<rparr>],
              posts_seq := i\<rparr>, i))"

text \<open>
  \<^verbatim>\<open>UPDATE posts SET title = ?, content = ?, updated_at = ? WHERE id = ?\<close>, giving the new
  database and \<^verbatim>\<open>changes\<close>, the number of rows the statement touched.
\<close>

definition update_post :: "database \<Rightarrow> string \<Rightarrow> string \<Rightarrow> timestamp \<Rightarrow> jsnum \<Rightarrow> database \<times> nat" where
  "update_post db t c ua x =
     (db\<lparr>posts := map (\<lambda>p. if id_is x (p_id p)
                             then p\<lparr>p_title := t, p_content := c, p_updated_at := ua\<rparr>
                             else p) (posts db)\<rparr>,
      length (filter (\<lambda>p. id_is x (p_id p)) (posts db)))"

text \<open>\<^verbatim>\<open>DELETE FROM posts WHERE id = ?\<close>, with \<^verbatim>\<open>changes\<close>.\<close>

definition delete_post :: "database \<Rightarrow> jsnum \<Rightarrow> database \<times> nat" where
  "delete_post db x =
     (db\<lparr>posts := filter (\<lambda>p. \<not> id_is x (p_id p)) (posts db)\<rparr>,
      length (filter (\<lambda>p. id_is x (p_id p)) (posts db)))"

text \<open>
  The three lookups on \<^verbatim>\<open>users\<close>.  The stored text is compared with the bound text byte
  by byte (collation BINARY); the row found is read as above.
\<close>

definition select_user_by_email :: "database \<Rightarrow> string \<Rightarrow> user option" where
  "select_user_by_email db email = map_option user_row (find (\<lambda>u. u_email u = email) (users db))"

definition select_user_by_id :: "database \<Rightarrow> jsnum \<Rightarrow> user option" where
  "select_user_by_id db x = map_option user_row (find (\<lambda>u. id_is x (u_id u)) (users db))"

definition select_user_by_id_email :: "database \<Rightarrow> jsnum \<Rightarrow> string \<Rightarrow> user option" where
  "select_user_by_id_email db x email =
     map_option user_row (find (\<lambda>u. id_is x (u_id u) \<and> u_email u = email) (users db))"

text \<open>
  \<^verbatim>\<open>INSERT INTO users (name, email, password, created_at, updated_at) VALUES (...)\<close>.
  The column \<^verbatim>\<open>email\<close> is UNIQUE: when a row already holds the email the statement
  throws, with the message below, and changes nothing.
\<close>

definition insert_user ::
  "database \<Rightarrow> string \<Rightarrow> string \<Rightarrow> string \<Rightarrow> timestamp \<Rightarrow> timestamp \<Rightarrow> string + database \<times> int" where
  "insert_user db n e pw ca ua =
     (if list_ex (\<lambda>u. u_email u = e) (users db) then Inl ''UNIQUE constraint failed: users.email''
      else
        let i = next_rowid (users_seq db) (map u_id (users db))
        in Inr (db\<lparr>users := users db @
                     [\<lparr>u_id = i, u_name = n, u_email = e, u_password = pw,
                       u_created_at = ca, u_updated_at = ua\<rparr>],
                   users_seq := i\<rparr>, i))"

text \<open>
  The start-up code seeds each table when it is empty; the two clock readings may differ.
\<close>

definition seed_posts :: "timestamp \<Rightarrow> database \<Rightarrow> database" where
  "seed_posts now db =
     (if length (posts db) = 0 then
        fst (insert_post
          (fst (insert_post
            (fst (insert_post db ''First post'' ''This is sample seed data for CRUD demo.'' now now))
            ''Second post'' ''Try list/detail/create/edit/delete flow.'' now now))
          ''Third post'' ''Data is persisted in SQLite database.'' now now)
      else db)"

definition seed_users :: "timestamp \<Rightarrow> database \<Rightarrow> database" where
  "seed_users now db =
     (if length (users db) = 0 then
        (case insert_user db ''Demo User'' ''demo@sample.com'' ''1234'' now now of
           Inl e \<Rightarrow> db
         | Inr (db', i) \<Rightarrow> db')
      else db)"

definition startup :: "timestamp \<Rightarrow> timestamp \<Rightarrow> database \<Rightarrow> database" where
  "startup now1 now2 db = seed_users now2 (seed_posts now1 db)"

subsection \<open>The token codec\<close>

definition mapUser :: "user \<Rightarrow> json" where
  "mapUser row =
     JObj [(''id'', JNum (of_integer (u_id row))),
           (''name'', JStr (u_name row)),
           (''email'', JStr (u_email row)),
           (''createdAt'', JStr (u_created_at row))]"

text \<open>
  \<^verbatim>\<open>createToken\<close> takes the row and the reading of \<^verbatim>\<open>Date.now()\<close>, in milliseconds.
\<close>

definition createToken :: "user \<Rightarrow> int \<Rightarrow> string" where
  "createToken user now_ms =
     base64url_encode (String_of_int (u_id user) @ '':'' @ u_email user @ '':'' @ String_of_int now_ms)"

text \<open>
  \<^verbatim>\<open>parseToken\<close>.  None of the calls in its \<^verbatim>\<open>try\<close> block throws on a string, so the
  \<^verbatim>\<open>catch\<close> branch is not taken and the result is decided by the test on \<open>id\<close> and
  \<open>email\<close> alone.  The destructuring \<^verbatim>\<open>[idRaw, email]\<close> takes the first two pieces;
  \<open>email\<close> is \<^verbatim>\<open>undefined\<close> when there is one piece only.
\<close>

definition parseToken :: "string \<Rightarrow> (jsnum \<times> string) option" where
  "parseToken token =
     (let decoded = utf8_toString (base64url_decode token);
          pieces = split CHR '':'' decoded;
          idRaw = (case pieces of [] \<Rightarrow> [] | a # r \<Rightarrow> a);
          email = (case pieces of a # b # r \<Rightarrow> Some b | _ \<Rightarrow> None);
          id = StringToNumber idRaw
      in if \<not> Number_isInteger id \<or> email = None \<or> email = Some [] then None
         else (case email of None \<Rightarrow> None | Some e \<Rightarrow> Some (id, e)))"

text \<open>
  The decoder as the specification describes it, on the decoded text: the id is the text
  before the first colon and the email the text between the first colon and the second
  (or the end).  There is no result when the text has no colon (no email segment), when
  the id is not an integer, and when the email is empty.
\<close>

definition decode_spec :: "string \<Rightarrow> (jsnum \<times> string) option" where
  "decode_spec text =
     (let idRaw = takeWhile (\<lambda>c. c \<noteq> CHR '':'') text;
          email = takeWhile (\<lambda>c. c \<noteq> CHR '':'') (tl (dropWhile (\<lambda>c. c \<noteq> CHR '':'') text))
      in if CHR '':'' \<in> set text \<and> Number_isInteger (StringToNumber idRaw) \<and> email \<noteq> []
         then Some (StringToNumber idRaw, email)
         else None)"

text \<open>
  \<^verbatim>\<open>readBearerToken\<close> reads \<^verbatim>\<open>req.headers.authorization\<close>, which may be missing.
\<close>

definition readBearerToken :: "string option \<Rightarrow> string option" where
  "readBearerToken authorization =
     (let header = (case authorization of None \<Rightarrow> [] | Some h \<Rightarrow> h)
      in if \<not> startsWith header ''Bearer '' then None
         else Some (trim (drop (length ''Bearer '') header)))"

subsection \<open>The post routes\<close>

definition post_json :: "post \<Rightarrow> json" where
  "post_json p =
     JObj [(''id'', JNum (of_integer (p_id p))),
           (''title'', JStr (p_title p)),
           (''content'', JStr (p_content p)),
           (''createdAt'', JStr (p_created_at p)),
           (''updatedAt'', JStr (p_updated_at p))]"

text \<open>\<^verbatim>\<open>GET /api/posts\<close>\<close>

definition get_posts :: "database \<Rightarrow> response" where
  "get_posts db = sendSuccess (Some (JArr (map post_json (select_posts_desc db)))) 200"


text \<open>\<^verbatim>\<open>POST /api/posts\<close>; \<open>now\<close> is the reading of \<^verbatim>\<open>new Date().toISOString()\<close>.\<close>

definition create_post :: "timestamp \<Rightarrow> reqbody \<Rightarrow> database \<Rightarrow> response \<times> database" where
  "create_post now b db =
     (case validatePostInput b of
        Inl error \<Rightarrow> (sendError error 422, db)
      | Inr (title, content) \<Rightarrow>
          (case insert_post db title content now now of
             (db', lastInsertRowid) \<Rightarrow>
               (sendSuccess (map_option post_json (select_post db' (of_integer lastInsertRowid))) 201,
                db')))"

text \<open>\<^verbatim>\<open>PUT /api/posts/:id\<close>\<close>

definition update_post_route ::
  "timestamp \<Rightarrow> string \<Rightarrow> reqbody \<Rightarrow> database \<Rightarrow> response \<times> database" where
  "update_post_route now idParam b db =
     (let id = parseId idParam
      in if \<not> Number_isInteger id then (sendError ''Invalid id.'' 422, db)
         else (case validatePostInput b of
                 Inl error \<Rightarrow> (sendError error 422, db)
               | Inr (title, content) \<Rightarrow>
                   (case update_post db title content now id of
                      (db', changes) \<Rightarrow>
                        if changes = 0 then (sendError ''Post not found.'' 404, db')
                        else (sendSuccess (map_option post_json (select_post db' id)) 200, db'))))"

text \<open>\<^verbatim>\<open>DELETE /api/posts/:id\<close>\<close>

definition delete_post_route :: "string \<Rightarrow> database \<Rightarrow> response \<times> database" where
  "delete_post_route idParam db =
     (let id = parseId idParam
      in if \<not> Number_isInteger id then (sendError ''Invalid id.'' 422, db)
         else (case delete_post db id of
                 (db', changes) \<Rightarrow>
                   if changes = 0 then (sendError ''Post not found.'' 404, db')
                   else (sendSuccess (Some (JObj [(''id'', JNum id)])) 200, db')))"

subsection \<open>The auth routes\<close>

text \<open>
  \<^verbatim>\<open>POST /api/auth/signup\<close>; \<open>now\<close> is the reading of \<^verbatim>\<open>new Date().toISOString()\<close> and
  \<open>now_ms\<close> the later reading of \<^verbatim>\<open>Date.now()\<close> in \<^verbatim>\<open>createToken\<close>.  An exception in the
  \<^verbatim>\<open>try\<close> block ends in the \<^verbatim>\<open>catch\<close>, which answers 500 with the message: the INSERT may
  throw, and so would \<^verbatim>\<open>createToken\<close> if the row read back were \<^verbatim>\<open>undefined\<close>.

  The handler runs its SELECT and its INSERT one after the other, outside any
  transaction, on a database file that another process may write (a second instance of
  the server, which \<^verbatim>\<open>startServer\<close> lets run on the next port).  \<open>signup_between\<close> is the
  handler with the database as the SELECT finds it, \<open>db\<close>, and as the INSERT finds it,
  \<open>db_at_insert\<close>; \<open>signup\<close> is the handler when nothing else writes in between.
\<close>

definition undefined_id_message :: string where
  "undefined_id_message =
     ''Cannot read properties of undefined (reading '' @ [CHR 0x27] @ ''id'' @ [CHR 0x27] @ '')''"

definition signup_between ::
  "(string \<Rightarrow> string) \<Rightarrow> timestamp \<Rightarrow> int \<Rightarrow> reqbody \<Rightarrow> database \<Rightarrow> database \<Rightarrow>
   response \<times> database" where
  "signup_between toLowerCase now now_ms b db db_at_insert =
     (let name = trim (field b ''name'');
          email = toLowerCase (trim (field b ''email''));
          password = trim (field b ''password'')
      in if name = [] \<or> email = [] \<or> password = []
         then (sendError ''name, email, password are required.'' 422, db)
         else (case select_user_by_email db email of
                 Some exists \<Rightarrow> (sendError ''This email is already registered.'' 409, db)
               | None \<Rightarrow>
                   (case insert_user db_at_insert name email password now now of
                      Inl message \<Rightarrow> (sendError message 500, db_at_insert)
                    | Inr (db', lastInsertRowid) \<Rightarrow>
                        (case select_user_by_id db' (of_integer lastInsertRowid) of
                           None \<Rightarrow> (sendError undefined_id_message 500, db')
                         | Some user \<Rightarrow>
                             (sendSuccess
                                (Some (JObj [(''token'', JStr (createToken user now_ms)),
                                             (''user'', mapUser user)])) 201,
                              db')))))"

definition signup ::
  "(string \<Rightarrow> string) \<Rightarrow> timestamp \<Rightarrow> int \<Rightarrow> reqbody \<Rightarrow> database \<Rightarrow> response \<times> database" where
  "signup toLowerCase now now_ms b db = signup_between toLowerCase now now_ms b db db"

text \<open>\<^verbatim>\<open>POST /api/auth/login\<close>\<close>

definition login :: "(string \<Rightarrow> string) \<Rightarrow> int \<Rightarrow> reqbody \<Rightarrow> database \<Rightarrow> response" where
  "login toLowerCase now_ms b db =
     (let email = toLowerCase (trim (field b ''email''));
          password = trim (field b ''password'')
      in if email = [] \<or> password = []
         then sendError ''email and password are required.'' 422
         else (case select_user_by_email db email of
                 None \<Rightarrow> sendError ''Invalid email or password.'' 401
               | Some user \<Rightarrow>
                   if u_password user \<noteq> password
                   then sendError ''Invalid email or password.'' 401
                   else sendSuccess
                          (Some (JObj [(''token'', JStr (createToken user now_ms)),
                                       (''user'', mapUser user)])) 200))"

text \<open>\<^verbatim>\<open>GET /api/auth/me\<close>; \<^verbatim>\<open>!token\<close> holds for \<^verbatim>\<open>null\<close> and for the empty text.\<close>

definition me :: "string option \<Rightarrow> database \<Rightarrow> response" where
  "me authorization db =
     (case readBearerToken authorization of
        None \<Rightarrow> sendError ''Bearer token is required.'' 401
      | Some token \<Rightarrow>
          if token = [] then sendError ''Bearer token is required.'' 401
          else (case parseToken token of
                  None \<Rightarrow> sendError ''Invalid token.'' 401
                | Some claims \<Rightarrow>
                    (case select_user_by_id_email db (fst claims) (snd claims) of
                       None \<Rightarrow> sendError ''Invalid token.'' 401
                     | Some user \<Rightarrow> sendSuccess (Some (JObj [(''user'', mapUser user)])) 200)))"

subsection \<open>A sample state\<close>

text \<open>
  The database right after the first start, both tables seeded at the same instant.
\<close>

definition demo_time :: timestamp where
  "demo_time = ''2024-01-01T00:00:00.000Z''"

definition demo_db :: database where
  "demo_db = startup demo_time demo_time empty_db"

definition demo_later_time :: timestamp where
  "demo_later_time = ''2024-01-02T00:00:00.000Z''"

definition demo_post_body :: reqbody where
  "demo_post_body = [''title'' \<mapsto> '' Hello '', ''content'' \<mapsto> ''World'']"


text \<open>Time order on timestamps: \<open>later a b\<close> when \<open>a\<close> is strictly after \<open>b\<close>.\<close>

definition later :: "timestamp \<Rightarrow> timestamp \<Rightarrow> bool" where
  "later a b = (b < a)"

text \<open>
  On text made of ASCII characters, \<^verbatim>\<open>toLowerCase\<close> is the function below, which maps the
  letters A to Z and keeps every other byte.  The sample requests have such text in
  their email fields, and are run with this function.
\<close>

definition lower_char :: "char \<Rightarrow> char" where
  "lower_char c =
     (if CHR ''A'' \<le> c \<and> c \<le> CHR ''Z'' then char_of (of_char c + (32::nat)) else c)"

definition toLowerCase_ascii :: "string \<Rightarrow> string" where
  "toLowerCase_ascii s = map lower_char s"

text \<open>Three signup bodies: one with a colon in the email, one without a name, one complete.\<close>

definition colon_signup_body :: reqbody where
  "colon_signup_body = [''name'' \<mapsto> ''Ann'', ''email'' \<mapsto> ''a:b@x.com'', ''password'' \<mapsto> ''pw'']"

definition nameless_signup_body :: reqbody where
  "nameless_signup_body = [''email'' \<mapsto> ''Demo@Sample.com'', ''password'' \<mapsto> ''pw'']"

definition duplicate_signup_body :: reqbody where
  "duplicate_signup_body =
     [''name'' \<mapsto> ''Eve'', ''email'' \<mapsto> '' Demo@Sample.COM '', ''password'' \<mapsto> ''pw'']"

text \<open>The row that signing up with \<open>colon_signup_body\<close> adds to the sample state.\<close>

definition colon_user :: user where
  "colon_user =
     \<lparr>u_id = 2, u_name = ''Ann'', u_email = ''a:b@x.com'', u_password = ''pw'',
      u_created_at = demo_later_time, u_updated_at = demo_later_time\<rparr>"

subsection \<open>Invariants and views of the users table\<close>

text \<open>
  Every write of the code stores emails in lower case: the seed row is, and signup
  lowers the email before it inserts.
\<close>

definition stored_lowercase :: "(string \<Rightarrow> string) \<Rightarrow> database \<Rightarrow> bool" where
  "stored_lowercase toLowerCase db =
     list_all (\<lambda>u. toLowerCase (u_email u) = u_email u) (users db)"

text \<open>
  What a database shows once the passwords are blanked: two databases with the same
  public view differ in stored passwords only.
\<close>

definition public_part :: "user \<Rightarrow> user" where
  "public_part u = u\<lparr>u_password := []\<rparr>"

definition same_public :: "database \<Rightarrow> database \<Rightarrow> bool" where
  "same_public d1 d2 =
     (map public_part (users d1) = map public_part (users d2) \<and> users_seq d1 = users_seq d2)"

text \<open>
  Two states with the same two users, the second user's stored password being different,
  and a login of the first user.
\<close>

definition two_user_db :: database where
  "two_user_db = demo_db\<lparr>users := users demo_db @ [colon_user], users_seq := 2\<rparr>"

definition other_password_db :: database where
  "other_password_db =
     demo_db\<lparr>users := users demo_db @ [colon_user\<lparr>u_password := ''secret''\<rparr>], users_seq := 2\<rparr>"

definition demo_login_body :: reqbody where
  "demo_login_body = [''email'' \<mapsto> ''demo@sample.com'', ''password'' \<mapsto> ''1234'']"

section \<open>Properties\<close>

subsection \<open>Auxiliary facts about numbers and text\<close>

lemma digit_char_props:
  assumes "0 \<le> d" "d < 10"
  shows "isDecimalDigit (digit_char d) \<and> digitValue (digit_char d) = d"
proof -
  from assms have "d = 0 \<or> d = 1 \<or> d = 2 \<or> d = 3 \<or> d = 4 \<or> d = 5 \<or> d = 6 \<or> d = 7 \<or> d = 8 \<or> d = 9"
    by arith
  then show ?thesis
    by (auto simp: digit_char_def isDecimalDigit_def digitValue_def less_eq_char_def)
qed

lemma digitsValue_snoc: "digitsValue b (ds @ [c]) = b * digitsValue b ds + digitValue c"
  by (simp add: digitsValue_def)

lemma digits_of_props:
  "0 \<le> n \<Longrightarrow> digits_of n \<noteq> [] \<and> list_all isDecimalDigit (digits_of n) \<and> digitsValue 10 (digits_of n) = n"
proof (induction n rule: digits_of.induct)
  case (1 n)
  show ?case
  proof (cases "n < 10")
    case True
    with 1(2) digit_char_props [of n] show ?thesis
      by (simp add: digits_of.simps [of n] digitsValue_def)
  next
    case False
    with 1 have ih: "digits_of (n div 10) \<noteq> [] \<and> list_all isDecimalDigit (digits_of (n div 10)) \<and>
        digitsValue 10 (digits_of (n div 10)) = n div 10"
      by simp
    have d: "isDecimalDigit (digit_char (n mod 10)) \<and> digitValue (digit_char (n mod 10)) = n mod 10"
      by (rule digit_char_props) simp_all
    from False ih d show ?thesis
      by (simp add: digits_of.simps [of n] digitsValue_snoc)
  qed
qed

lemma decimal_digit_ascii: "isDecimalDigit c \<Longrightarrow> c < CHR 0x80 \<and> \<not> ws1 c"
  by (auto simp: isDecimalDigit_def ws1_def less_eq_char_def less_char_def)

lemma strip_ws_ascii:
  assumes "a < CHR 0x80" "\<not> ws1 a"
  shows "strip_ws bw (a # r) = a # r"
proof -
  from assms(1) have n: "a \<noteq> CHR 0xC2" "a \<noteq> CHR 0xA0" "\<not> ws3 a x y" "\<not> ws3 x y a" for x y
    by (auto simp: ws3_def less_char_def less_eq_char_def)
  show ?thesis
  proof (cases r)
    case Nil
    with assms show ?thesis by simp
  next
    case (Cons b r1)
    show ?thesis
    proof (cases r1)
      case Nil
      with Cons assms n show ?thesis by (simp add: ws2_def)
    next
      case (Cons c r2)
      with \<open>r = b # r1\<close> assms n show ?thesis by (simp add: ws2_def)
    qed
  qed
qed

lemma trim_ascii_ends:
  assumes "s \<noteq> []" "hd s < CHR 0x80" "\<not> ws1 (hd s)" "last s < CHR 0x80" "\<not> ws1 (last s)"
  shows "trim s = s"
proof -
  from assms obtain a r where s: "s = a # r" by (cases s) auto
  with assms have 1: "trimStart s = s"
    by (simp add: trimStart_def strip_ws_ascii)
  from assms(1) have r: "rev s = last s # rev (butlast s)"
    by (cases s rule: rev_cases) auto
  have "strip_ws True (rev s) = rev s"
    unfolding r by (rule strip_ws_ascii [OF assms(4,5)])
  then have "trimEnd s = s" by (simp add: trimEnd_def)
  with 1 show ?thesis by (simp add: trim_def)
qed


lemma bitlen_nonneg: "0 \<le> bitlen n"
proof (induction n rule: bitlen.induct)
  case (1 n)
  then show ?case by (cases "n \<le> 0") (simp_all add: bitlen.simps [of n])
qed

lemma bitlen_pos: "0 < n \<Longrightarrow> 0 < bitlen n"
  using bitlen_nonneg [of "n div 2"] by (simp add: bitlen.simps [of n])

lemma bitlen_bounds:
  "0 < n \<Longrightarrow> 2 ^ nat (bitlen n - 1) \<le> n \<and> n < 2 ^ nat (bitlen n)"
proof (induction n rule: bitlen.induct)
  case (1 n)
  show ?case
  proof (cases "n = 1")
    case True
    have "bitlen 1 = 1" by (simp add: bitlen.simps [of 1] bitlen.simps [of 0])
    with True show ?thesis by simp
  next
    case False
    with 1(2) have h: "0 < n div 2" by simp
    with 1 have ih: "2 ^ nat (bitlen (n div 2) - 1) \<le> n div 2 \<and> n div 2 < 2 ^ nat (bitlen (n div 2))"
      by simp
    have b: "bitlen n = 1 + bitlen (n div 2)" using 1(2) by (simp add: bitlen.simps [of n])
    from bitlen_pos [OF h] have p: "nat (bitlen (n div 2)) = Suc (nat (bitlen (n div 2) - 1))"
      by simp
    have "nat (bitlen n - 1) = nat (bitlen (n div 2))" using b by simp
    moreover have "nat (bitlen n) = Suc (nat (bitlen (n div 2)))" using b bitlen_pos [OF h] by simp
    moreover have "2 * (n div 2) \<le> n" "n < 2 * (n div 2) + 2" by simp_all
    ultimately show ?thesis using ih p by simp
  qed
qed

lemma lowest_terms_pow2: "lowest_terms (n * 2 ^ k) k = Finite n 0"
  by (induction k arbitrary: n) simp_all

text \<open>Integers below \<open>2^53\<close> are floats: rounding keeps them.\<close>

lemma RoundMVResult_safe:
  assumes "0 \<le> n" "n < 2 ^ 53"
  shows "RoundMVResult n 1 = Finite n 0"
proof (cases "n = 0")
  case True
  then show ?thesis by (simp add: RoundMVResult_def)
next
  case False
  with assms have pos: "0 < n" by simp
  have b1: "bitlen 1 = 1" by (simp add: bitlen.simps [of 1] bitlen.simps [of 0])
  from bitlen_bounds [OF pos] have lo: "2 ^ nat (bitlen n - 1) \<le> n" and hi: "n < 2 ^ nat (bitlen n)"
    by simp_all
  from bitlen_pos [OF pos] have bp: "0 < bitlen n" .
  have fl: "floor_log2 n 1 = bitlen n - 1"
    using lo bp by (simp add: floor_log2_def b1 Let_def)
  from lo assms(2) have "(2::int) ^ nat (bitlen n - 1) < 2 ^ 53" by simp
  then have "nat (bitlen n - 1) < 53" by (rule power_less_imp_less_exp [rotated]) simp
  then have le: "bitlen n \<le> 53" by simp
  then have q: "max (floor_log2 n 1 - 52) (- 1074) = bitlen n - 53"
    using bp by (simp add: fl)
  show ?thesis
  proof (cases "bitlen n = 53")
    case True
    have "\<not> (2::int) ^ 1024 \<le> n" using assms(2) by simp
    with False True show ?thesis
      unfolding RoundMVResult_def q Let_def by simp
  next
    case F: False
    with le have neg: "bitlen n - 53 < 0" by simp
    with False show ?thesis
      unfolding RoundMVResult_def q Let_def by (simp add: lowest_terms_pow2)
  qed
qed

lemma StrUnsignedDecimalLiteral_digits:
  assumes "ds \<noteq> []" "list_all isDecimalDigit ds"
    and "0 \<le> digitsValue 10 ds" "digitsValue 10 ds < 2 ^ 53"
  shows "StrUnsignedDecimalLiteral ds = Finite (digitsValue 10 ds) 0"
proof -
  from assms have "hd ds \<noteq> CHR ''I''"
    by (cases ds) (auto simp: isDecimalDigit_def less_eq_char_def)
  with assms(1) have ni: "ds \<noteq> ''Infinity''" by auto
  from assms(2) have tw: "takeWhile isDecimalDigit ds = ds" "dropWhile isDecimalDigit ds = []"
    by (simp_all add: list_all_iff)
  show ?thesis
    unfolding StrUnsignedDecimalLiteral_def tw Let_def
    using assms(1) ni RoundMVResult_safe [OF assms(3,4)] by (simp add: ExponentPart_def)
qed

lemma digit_not_letter:
  "isDecimalDigit x \<Longrightarrow>
   x \<notin> {CHR ''x'', CHR ''X'', CHR ''o'', CHR ''O'', CHR ''b'', CHR ''B'', CHR ''+'', CHR ''-''}"
  by (auto simp: isDecimalDigit_def less_eq_char_def)

lemma StringToNumber_plain:
  assumes "trim s = s" "s \<noteq> []"
    and "take 2 s \<noteq> ''0x''" "take 2 s \<noteq> ''0X''" "take 2 s \<noteq> ''0o''" "take 2 s \<noteq> ''0O''"
        "take 2 s \<noteq> ''0b''" "take 2 s \<noteq> ''0B''"
  shows "StringToNumber s =
           (if hd s = CHR ''+'' then StrUnsignedDecimalLiteral (tl s)
            else if hd s = CHR ''-'' then negate (StrUnsignedDecimalLiteral (tl s))
            else StrUnsignedDecimalLiteral s)"
proof -
  have "StringToNumber s =
          (case s of
             [] \<Rightarrow> NaN
           | c # r \<Rightarrow>
               if c = CHR ''+'' then StrUnsignedDecimalLiteral r
               else if c = CHR ''-'' then negate (StrUnsignedDecimalLiteral r)
               else StrUnsignedDecimalLiteral s)"
    unfolding StringToNumber_def assms(1) Let_def using assms(2-) by simp
  with assms(2) show ?thesis by (cases s) simp_all
qed

lemma take2_digits:
  assumes "list_all isDecimalDigit ds" "\<not> isDecimalDigit x"
  shows "take 2 (c # ds) \<noteq> [y, x]"
  using assms by (cases ds) auto

text \<open>\<^verbatim>\<open>Number(String(i)) = i\<close> for the integers below \<open>2^53\<close> in size.\<close>

lemma StringToNumber_String_of_int:
  assumes "- (2 ^ 53) < i" "i < 2 ^ 53"
  shows "StringToNumber (String_of_int i) = of_integer i"
proof (cases "i < 0")
  case False
  let ?s = "digits_of i"
  from False have p: "?s \<noteq> []" "list_all isDecimalDigit ?s" "digitsValue 10 ?s = i"
    using digits_of_props [of i] by simp_all
  from p have h: "isDecimalDigit (hd ?s)" and l: "isDecimalDigit (last ?s)"
    by (simp_all add: list_all_iff)
  have t: "trim ?s = ?s"
    using p(1) h l decimal_digit_ascii by (intro trim_ascii_ends) auto
  from p have "list_all isDecimalDigit (tl ?s)" "?s = hd ?s # tl ?s"
    by (cases ?s; simp)+
  then have np: "take 2 ?s \<noteq> [y, x]" if "\<not> isDecimalDigit x" for x y
    using take2_digits [of "tl ?s" x "hd ?s" y] that by simp
  have nd: "\<not> isDecimalDigit CHR ''x''" "\<not> isDecimalDigit CHR ''X''" "\<not> isDecimalDigit CHR ''o''"
     "\<not> isDecimalDigit CHR ''O''" "\<not> isDecimalDigit CHR ''b''" "\<not> isDecimalDigit CHR ''B''"
    by (simp_all add: isDecimalDigit_def less_eq_char_def)
  from digit_not_letter [OF h] have s: "hd ?s \<noteq> CHR ''+''" "hd ?s \<noteq> CHR ''-''" by auto
  have "StringToNumber ?s = StrUnsignedDecimalLiteral ?s"
    using StringToNumber_plain [OF t p(1) nd [THEN np] ] s by simp
  with p False assms show ?thesis
    by (simp add: String_of_int_def StrUnsignedDecimalLiteral_digits of_integer_def)
next
  case True
  let ?d = "digits_of (- i)"
  from True have p: "?d \<noteq> []" "list_all isDecimalDigit ?d" "digitsValue 10 ?d = - i"
    using digits_of_props [of "- i"] by simp_all
  let ?s = "CHR ''-'' # ?d"
  from p have l: "isDecimalDigit (last ?s)"
    by (simp add: list_all_iff)
  have m: "CHR ''-'' < CHR 0x80" "\<not> ws1 CHR ''-''"
    by (simp_all add: less_char_def ws1_def)
  have t: "trim ?s = ?s"
    using l m decimal_digit_ascii by (intro trim_ascii_ends) auto
  have "StringToNumber ?s = negate (StrUnsignedDecimalLiteral ?d)"
    using StringToNumber_plain [OF t] by simp
  with p True assms show ?thesis
    by (simp add: String_of_int_def StrUnsignedDecimalLiteral_digits of_integer_def negate_def)
qed

subsection \<open>Auxiliary facts about the tables\<close>

lemma fold_max_ge: "a \<le> fold max xs (a::int)"
  by (induction xs arbitrary: a) (auto intro: order_trans [OF max.cobounded2])

lemma fold_max_mem: "x \<in> set xs \<Longrightarrow> x \<le> fold max xs (a::int)"
proof (induction xs arbitrary: a)
  case Nil
  then show ?case by simp
next
  case (Cons y ys)
  show ?case
  proof (cases "x = y")
    case True
    have "y \<le> max y a" by simp
    also have "\<dots> \<le> fold max ys (max y a)" by (rule fold_max_ge)
    finally show ?thesis using True by simp
  next
    case False
    with Cons show ?thesis by simp
  qed
qed

lemma next_rowid_fresh: "i \<in> set ids \<Longrightarrow> i < next_rowid seq ids"
  using fold_max_mem [of i ids 0] by (simp add: next_rowid_def)

lemma set_insert_desc: "set (insert_desc p ps) = insert p (set ps)"
  by (induction ps) auto

lemma mset_insert_desc: "mset (insert_desc p ps) = add_mset p (mset ps)"
  by (induction ps) auto

lemma sorted_insert_desc:
  "sorted_wrt (\<lambda>a b. p_id b \<le> p_id a) ps \<Longrightarrow>
   sorted_wrt (\<lambda>a b. p_id b \<le> p_id a) (insert_desc p ps)"
  by (induction ps) (auto simp: set_insert_desc)

lemma mset_order_by_id_desc: "mset (order_by_id_desc ps) = mset ps"
  by (induction ps) (simp_all add: order_by_id_desc_def mset_insert_desc)

lemma sorted_order_by_id_desc: "sorted_wrt (\<lambda>a b. p_id b \<le> p_id a) (order_by_id_desc ps)"
  by (induction ps) (simp_all add: order_by_id_desc_def sorted_insert_desc)

subsection \<open>Auxiliary facts about the sample state and the responses\<close>

lemma demo_db_posts:
  "posts demo_db =
     [\<lparr>p_id = 1, p_title = ''First post'', p_content = ''This is sample seed data for CRUD demo.'',
       p_created_at = demo_time, p_updated_at = demo_time\<rparr>,
      \<lparr>p_id = 2, p_title = ''Second post'', p_content = ''Try list/detail/create/edit/delete flow.'',
       p_created_at = demo_time, p_updated_at = demo_time\<rparr>,
      \<lparr>p_id = 3, p_title = ''Third post'', p_content = ''Data is persisted in SQLite database.'',
       p_created_at = demo_time, p_updated_at = demo_time\<rparr>]"
  by (simp add: demo_db_def startup_def seed_posts_def seed_users_def insert_post_def
      insert_user_def next_rowid_def empty_db_def Let_def)

lemma demo_db_users:
  "users demo_db =
     [\<lparr>u_id = 1, u_name = ''Demo User'', u_email = ''demo@sample.com'', u_password = ''1234'',
       u_created_at = demo_time, u_updated_at = demo_time\<rparr>]"
  by (simp add: demo_db_def startup_def seed_posts_def seed_users_def insert_post_def
      insert_user_def next_rowid_def empty_db_def Let_def)

lemma demo_db_seqs: "posts_seq demo_db = 3" "users_seq demo_db = 1"
  by (simp_all add: demo_db_def startup_def seed_posts_def seed_users_def insert_post_def
      insert_user_def next_rowid_def empty_db_def Let_def)

lemma status_sendError [simp]: "status (sendError e st) = st"
  by (simp add: sendError_def)

lemma status_sendSuccess [simp]: "status (sendSuccess d st) = st"
  by (simp add: sendSuccess_def)

lemma id_is_of_integer [simp]: "id_is (of_integer i) j \<longleftrightarrow> j = i"
  by (auto simp: id_is_def of_integer_def)

lemma isInteger_of_integer [simp]: "Number_isInteger (of_integer i)"
  by (simp add: Number_isInteger_def of_integer_def)

lemma column_text_id: "CHR 0x00 \<notin> set s \<Longrightarrow> column_text s = s"
  by (auto simp: column_text_def takeWhile_eq_all_conv)

lemma column_text_no_zero: "CHR 0x00 \<notin> set (column_text s)"
  unfolding column_text_def by (induction s) auto

lemma column_text_idem: "column_text (column_text s) = column_text s"
  by (rule column_text_id) (rule column_text_no_zero)

lemma post_row_fields [simp]:
  "p_id (post_row p) = p_id p" "p_title (post_row p) = column_text (p_title p)"
  "p_content (post_row p) = column_text (p_content p)"
  "p_created_at (post_row p) = column_text (p_created_at p)"
  "p_updated_at (post_row p) = column_text (p_updated_at p)"
  by (simp_all add: post_row_def)

lemma user_row_fields [simp]:
  "u_id (user_row u) = u_id u" "u_name (user_row u) = column_text (u_name u)"
  "u_email (user_row u) = column_text (u_email u)"
  "u_password (user_row u) = column_text (u_password u)"
  "u_created_at (user_row u) = column_text (u_created_at u)"
  "u_updated_at (user_row u) = column_text (u_updated_at u)"
  by (simp_all add: user_row_def)

lemma demo_time_text: "column_text demo_time = demo_time" "column_text demo_later_time = demo_later_time"
  by (simp_all add: column_text_def demo_time_def demo_later_time_def)

lemma select_post_None: "select_post db x = None \<longleftrightarrow> (\<forall>p\<in>set (posts db). \<not> id_is x (p_id p))"
  by (auto simp: select_post_def find_None_iff)

lemma select_post_Some:
  "select_post db x = Some r \<Longrightarrow> \<exists>p\<in>set (posts db). id_is x (p_id p) \<and> r = post_row p"
  by (auto simp: select_post_def find_Some_iff)

lemma find_Some_mem: "find P xs = Some x \<Longrightarrow> x \<in> set xs \<and> P x"
  by (induction xs) (auto split: if_splits)

lemma select_user_by_email_None:
  "select_user_by_email db e = None \<longleftrightarrow> (\<forall>u\<in>set (users db). u_email u \<noteq> e)"
  by (auto simp: select_user_by_email_def find_None_iff)

lemma select_user_by_email_Some:
  "select_user_by_email db e = Some r \<Longrightarrow> \<exists>u\<in>set (users db). u_email u = e \<and> r = user_row u"
  by (auto simp: select_user_by_email_def dest: find_Some_mem)

lemma select_user_by_id_email_None:
  "select_user_by_id_email db x e = None \<longleftrightarrow>
     (\<forall>u\<in>set (users db). \<not> (id_is x (u_id u) \<and> u_email u = e))"
  by (auto simp: select_user_by_id_email_def find_None_iff)

lemma select_user_by_id_email_Some:
  "select_user_by_id_email db x e = Some r \<Longrightarrow>
     \<exists>u\<in>set (users db). id_is x (u_id u) \<and> u_email u = e \<and> r = user_row u"
  by (auto simp: select_user_by_id_email_def dest: find_Some_mem)

lemma validatePostInput_Inr:
  "validatePostInput b = Inr (t, c) \<longleftrightarrow>
     t = trim (field b ''title'') \<and> c = trim (field b ''content'') \<and> t \<noteq> [] \<and> c \<noteq> []"
  by (auto simp: validatePostInput_def Let_def)

lemma demo_post_body_valid: "validatePostInput demo_post_body = Inr (''Hello'', ''World'')"
proof -
  have "trim '' Hello '' = ''Hello''" "trim ''World'' = ''World''" by code_simp+
  then show ?thesis by (simp add: validatePostInput_def demo_post_body_def field_def)
qed

lemma parseId_2: "parseId ''2'' = of_integer 2"
  unfolding parseId_def of_integer_def by code_simp

subsection \<open>Auxiliary facts about base64url and UTF-8\<close>

lemma octets_short: "length r < 8 \<Longrightarrow> octets r = []"
  by (induction r rule: octets.induct) auto

lemma octets_bytes: "length pad < 8 \<Longrightarrow> octets (concat (map bits_of_byte bs) @ pad) = bs"
proof (induction bs)
  case Nil
  then show ?case by (simp add: octets_short)
next
  case (Cons c bs)
  then show ?case by (cases c) (simp add: bits_of_byte_def)
qed

lemma sextets_props:
  "\<exists>pad. concat (sextets bits) = bits @ pad \<and> length pad < 6 \<and>
         (\<forall>s\<in>set (sextets bits). length s = 6)"
proof (induction bits rule: sextets.induct)
  case (1 a b c d e f r)
  then show ?case by auto
next
  case 2
  then show ?case by simp
qed (simp_all add: eval_nat_numeral)

lemma sextet_bits:
  assumes "length s = 6"
  shows "bits_of_sextet (nat_of_bits s) = s \<and> nat_of_bits s < 64"
proof -
  from assms obtain a b c d e f where s: "s = [a, b, c, d, e, f]"
    by (auto simp: length_Suc_conv eval_nat_numeral)
  show ?thesis
    unfolding s nat_of_bits_def bits_of_sextet_def
    by (cases a; cases b; cases c; cases d; cases e; cases f; simp)
qed

lemma alphabet_all:
  "list_all (\<lambda>n. unbase64 (base64url_alphabet ! n) = Some n \<and>
                  base64url_alphabet ! n \<noteq> CHR ''='' \<and>
                  base64url_alphabet ! n < CHR 0x80 \<and> \<not> ws1 (base64url_alphabet ! n)) [0..<64]"
  by code_simp

lemma alphabet_char:
  assumes "n < 64"
  shows "unbase64 (base64url_alphabet ! n) = Some n"
    and "base64url_alphabet ! n \<noteq> CHR ''=''"
    and "base64url_alphabet ! n < CHR 0x80"
    and "\<not> ws1 (base64url_alphabet ! n)"
  using alphabet_all assms by (simp_all add: list_all_iff)


lemma base64url_roundtrip: "base64url_decode (base64url_encode bs) = bs"
proof -
  let ?bits = "concat (map bits_of_byte bs)"
  from sextets_props [of ?bits] obtain pad where
    pad: "concat (sextets ?bits) = ?bits @ pad" "length pad < 6"
    and six: "\<forall>s\<in>set (sextets ?bits). length s = 6"
    by blast
  let ?enc = "map (\<lambda>s. base64url_alphabet ! nat_of_bits s) (sextets ?bits)"
  have ne: "\<forall>c\<in>set ?enc. c \<noteq> CHR ''=''"
    using six sextet_bits alphabet_char(2) by auto
  then have tw: "takeWhile (\<lambda>c. c \<noteq> CHR ''='') ?enc = ?enc"
    by (simp add: takeWhile_eq_all_conv)
  have mf: "List.map_filter unbase64 (map (\<lambda>s. base64url_alphabet ! nat_of_bits s) ss) = map nat_of_bits ss"
    if "\<forall>s\<in>set ss. length s = 6" for ss
    using that
  proof (induction ss)
    case Nil
    then show ?case by (simp add: List.map_filter_simps)
  next
    case (Cons s ss)
    then have "unbase64 (base64url_alphabet ! nat_of_bits s) = Some (nat_of_bits s)"
      using sextet_bits [of s] alphabet_char(1) by simp
    with Cons show ?case by (simp add: List.map_filter_simps)
  qed
  have bs: "map bits_of_sextet (map nat_of_bits (sextets ?bits)) = sextets ?bits"
    using six sextet_bits by (simp add: map_idI)
  have "base64url_decode (base64url_encode bs) =
          octets (concat (map bits_of_sextet
            (List.map_filter unbase64 (takeWhile (\<lambda>c. c \<noteq> CHR ''='') ?enc))))"
    by (simp only: base64url_decode_def base64url_encode_def)
  also have "\<dots> = octets (concat (map bits_of_sextet (List.map_filter unbase64 ?enc)))"
    by (simp only: tw)
  also have "\<dots> = octets (concat (map bits_of_sextet (map nat_of_bits (sextets ?bits))))"
    by (simp only: mf [OF six])
  also have "\<dots> = octets (concat (sextets ?bits))"
    by (simp only: bs)
  also have "\<dots> = octets (?bits @ pad)"
    by (simp only: pad(1))
  also have "\<dots> = bs"
    using pad(2) by (simp add: octets_bytes)
  finally show ?thesis .
qed

lemma utf8_toString_ascii_prefix:
  "\<forall>c\<in>set a. c < CHR 0x80 \<Longrightarrow> utf8_toString (a @ r) = a @ utf8_toString r"
  by (induction a) simp_all

lemma ascii_not_continuation:
  "c < CHR 0x80 \<Longrightarrow> \<not> continuation c \<and> \<not> second_ok a c"
  by (auto simp: continuation_def second_ok_def less_char_def less_eq_char_def)

lemma utf8_toString_ascii_next:
  assumes "h < CHR 0x80"
  shows "utf8_toString (e @ h # s) = utf8_toString e @ utf8_toString (h # s)"
proof (induction e rule: utf8_toString.induct)
  case 1
  then show ?case by simp
next
  case (2 a r)
  note nc = ascii_not_continuation [OF assms]
  note step = utf8_toString.simps(2) [of a]
  show ?case
  proof (cases r)
    case Nil
    with nc show ?thesis
      by (simp only: append_Cons append_Nil step list.case) (simp del: utf8_toString.simps(2))
  next
    case r: (Cons b r1)
    show ?thesis
    proof (cases r1)
      case Nil
      with r nc 2 show ?thesis
        by (simp only: append_Cons append_Nil step list.case) (simp del: utf8_toString.simps(2))
    next
      case r1: (Cons c r2)
      show ?thesis
      proof (cases r2)
        case Nil
        with r r1 nc 2 show ?thesis
          by (simp only: append_Cons append_Nil step list.case) (simp del: utf8_toString.simps(2))
      next
        case (Cons d r3)
        with r r1 2 show ?thesis
          by (simp only: append_Cons append_Nil step list.case) (simp del: utf8_toString.simps(2))
      qed
    qed
  qed
qed

lemma split_before_colon:
  "CHR '':'' \<notin> set a \<Longrightarrow> split CHR '':'' (a @ CHR '':'' # r) = a # split CHR '':'' r"
  by (induction a) (auto split: list.splits)

subsection \<open>Listing posts\<close>

text \<open>
  C9.  Whatever the posts table holds, \<^verbatim>\<open>GET /api/posts\<close> answers 200 with every row of
  the table, each once (no pagination), ordered by id descending.  Each row is shown as
  it is read from the table.
\<close>

theorem list_posts_all_rows_descending:
  "\<exists>rows. get_posts db =
            \<lparr>status = 200,
             body = JObj [(''success'', JBool True),
                          (''data'', JArr (map post_json (map post_row rows)))]\<rparr> \<and>
          mset rows = mset (posts db) \<and>
          sorted_wrt (\<lambda>a b. p_id b \<le> p_id a) rows"
proof -
  let ?rows = "order_by_id_desc (posts db)"
  have "get_posts db =
          \<lparr>status = 200,
           body = JObj [(''success'', JBool True),
                        (''data'', JArr (map post_json (map post_row ?rows)))]\<rparr>"
    by (simp add: get_posts_def sendSuccess_def select_posts_desc_def)
  moreover have "mset ?rows = mset (posts db)"
    by (simp add: mset_order_by_id_desc)
  moreover have "sorted_wrt (\<lambda>a b. p_id b \<le> p_id a) ?rows"
    by (simp add: sorted_order_by_id_desc)
  ultimately show ?thesis by blast
qed

subsection \<open>Reading one post\<close>


lemma demo_second_post:
  "post_row (posts demo_db ! 1) =
     \<lparr>p_id = 2, p_title = ''Second post'', p_content = ''Try list/detail/create/edit/delete flow.'',
      p_created_at = demo_time, p_updated_at = demo_time\<rparr>"
  by (simp add: demo_db_posts post_row_def demo_time_text) (simp add: column_text_def)



subsection \<open>Deleting a post\<close>






subsection \<open>Creating a post\<close>









subsection \<open>Updating a post\<close>

lemma update_rows_frame:
  "list_all2
     (\<lambda>p q. p_id q = p_id p \<and> p_created_at q = p_created_at p \<and>
            (if id_is x (p_id p)
             then p_title q = t \<and> p_content q = c \<and> p_updated_at q = now \<and>
                  (later (p_updated_at q) (p_updated_at p) \<longleftrightarrow> later now (p_updated_at p))
             else q = p))
     ps
     (map (\<lambda>p. if id_is x (p_id p) then p\<lparr>p_title := t, p_content := c, p_updated_at := now\<rparr> else p) ps)"
  by (induction ps) auto

text \<open>
  C5 (amended).  A successful update leaves the number and order of the rows, every id and
  every createdAt as they were, and leaves every row with another id untouched.  In the
  rows with the requested id, title and content become the trimmed request values and
  updatedAt becomes the clock reading of the request: it is strictly later than the value
  it replaces exactly when that clock reading is.  The users table and both counters are
  unchanged, and the answer is the updated row, as read from the table.
\<close>

theorem update_post_frame:
  assumes "update_post_route now idParam b db = (r, db')" and "status r = 200"
  shows "list_all2
           (\<lambda>p q. p_id q = p_id p \<and> p_created_at q = p_created_at p \<and>
                  (if id_is (parseId idParam) (p_id p)
                   then p_title q = trim (field b ''title'') \<and>
                        p_content q = trim (field b ''content'') \<and>
                        p_updated_at q = now \<and>
                        (later (p_updated_at q) (p_updated_at p) \<longleftrightarrow> later now (p_updated_at p))
                   else q = p))
           (posts db) (posts db') \<and>
         posts_seq db' = posts_seq db \<and> users db' = users db \<and> users_seq db' = users_seq db \<and>
         (\<exists>p\<in>set (posts db). id_is (parseId idParam) (p_id p)) \<and>
         (\<exists>q\<in>set (posts db'). id_is (parseId idParam) (p_id q) \<and> p_updated_at q = now \<and>
            r = sendSuccess (Some (post_json (post_row q))) 200)"
proof -
  let ?x = "parseId idParam"
  let ?t = "trim (field b ''title'')" and ?c = "trim (field b ''content'')"
  let ?f = "\<lambda>p. if id_is ?x (p_id p) then p\<lparr>p_title := ?t, p_content := ?c, p_updated_at := now\<rparr> else p"
  from assms have int: "Number_isInteger ?x"
    by (auto simp: update_post_route_def Let_def split: if_splits)
  from assms int have v: "validatePostInput b = Inr (?t, ?c)"
    by (auto simp: update_post_route_def Let_def validatePostInput_Inr split: sum.splits)
  from assms int v have ch: "filter (\<lambda>p. id_is ?x (p_id p)) (posts db) \<noteq> []"
    by (auto simp: update_post_route_def update_post_def Let_def split: if_splits)
  from assms int v ch have db': "db' = db\<lparr>posts := map ?f (posts db)\<rparr>"
    and r: "r = sendSuccess (map_option post_json (select_post db' ?x)) 200"
    by (auto simp: update_post_route_def update_post_def Let_def)
  from ch obtain p where p: "p \<in> set (posts db)" "id_is ?x (p_id p)"
    by (auto simp: filter_empty_conv)
  then have "?f p \<in> set (posts db')" "id_is ?x (p_id (?f p))"
    by (auto simp: db')
  then have "\<exists>q. select_post db' ?x = Some q"
    by (cases "select_post db' ?x") (auto simp: select_post_None)
  then obtain q0 where q0: "select_post db' ?x = Some q0" ..
  from select_post_Some [OF q0] obtain q where
    q': "q \<in> set (posts db')" "id_is ?x (p_id q)" and q: "q0 = post_row q"
    by blast
  from q' have "p_updated_at q = now" by (auto simp: db')
  with q q0 q' r have last: "\<exists>q\<in>set (posts db'). id_is ?x (p_id q) \<and> p_updated_at q = now \<and>
            r = sendSuccess (Some (post_json (post_row q))) 200"
    by auto
  have "list_all2
           (\<lambda>p q. p_id q = p_id p \<and> p_created_at q = p_created_at p \<and>
                  (if id_is ?x (p_id p)
                   then p_title q = ?t \<and> p_content q = ?c \<and> p_updated_at q = now \<and>
                        (later (p_updated_at q) (p_updated_at p) \<longleftrightarrow> later now (p_updated_at p))
                   else q = p))
           (posts db) (posts db')"
    unfolding db' using update_rows_frame [of ?x ?t ?c now "posts db"] by simp
  with p last show ?thesis by (auto simp: db')
qed

lemma demo_update_2:
  "update_post_route now ''2'' demo_post_body demo_db =
     (sendSuccess (Some (post_json (post_row
        \<lparr>p_id = 2, p_title = ''Hello'', p_content = ''World'',
         p_created_at = demo_time, p_updated_at = now\<rparr>))) 200,
      demo_db\<lparr>posts :=
        [posts demo_db ! 0,
         \<lparr>p_id = 2, p_title = ''Hello'', p_content = ''World'',
          p_created_at = demo_time, p_updated_at = now\<rparr>,
         posts demo_db ! 2]\<rparr>)"
  by (simp add: update_post_route_def parseId_2 demo_post_body_valid update_post_def
      demo_db_posts select_post_def Let_def)

theorem update_post_frame_witness:
  "status (fst (update_post_route demo_later_time ''2'' demo_post_body demo_db)) = 200 \<and>
   list_all2
     (\<lambda>p q. p_id q = p_id p \<and> p_created_at q = p_created_at p \<and>
            (if id_is (parseId ''2'') (p_id p)
             then p_title q = trim (field demo_post_body ''title'') \<and>
                  p_content q = trim (field demo_post_body ''content'') \<and>
                  p_updated_at q = demo_later_time \<and>
                  (later (p_updated_at q) (p_updated_at p) \<longleftrightarrow> later demo_later_time (p_updated_at p))
             else q = p))
     (posts demo_db) (posts (snd (update_post_route demo_later_time ''2'' demo_post_body demo_db))) \<and>
   (\<exists>q\<in>set (posts (snd (update_post_route demo_later_time ''2'' demo_post_body demo_db))).
      id_is (parseId ''2'') (p_id q) \<and> p_updated_at q = demo_later_time \<and>
      fst (update_post_route demo_later_time ''2'' demo_post_body demo_db) =
        sendSuccess (Some (post_json (post_row q))) 200)"
proof -
  let ?u = "update_post_route demo_later_time ''2'' demo_post_body demo_db"
  have 1: "?u = (fst ?u, snd ?u)" by simp
  have 2: "status (fst ?u) = 200" by (simp add: demo_update_2)
  from update_post_frame [OF 1 2] 2 show ?thesis by blast
qed

text \<open>
  The claim as stated asks for a strictly later updatedAt after every successful update.
  An update handled in the same millisecond as the previous write stores the same
  timestamp again.
\<close>

theorem update_same_instant_counterexample:
  "status (fst (update_post_route demo_time ''2'' demo_post_body demo_db)) = 200 \<and>
   \<not> later (p_updated_at (posts (snd (update_post_route demo_time ''2'' demo_post_body demo_db)) ! 1))
            (p_updated_at (posts demo_db ! 1))"
  by (simp add: demo_update_2 demo_db_posts later_def)

subsection \<open>The me route\<close>

lemma readBearerToken_None: "readBearerToken None = None"
  by (simp add: readBearerToken_def startsWith_def)

lemma readBearerToken_other:
  assumes "take 7 v \<noteq> ''Bearer ''"
  shows "readBearerToken (Some v) = None"
proof -
  have l: "length ''Bearer '' = 7" by simp
  show ?thesis
    unfolding readBearerToken_def startsWith_def l using assms by simp
qed

lemma readBearerToken_Bearer: "readBearerToken (Some (''Bearer '' @ v)) = Some (trim v)"
  by (simp add: readBearerToken_def startsWith_def)



lemma demo_trims:
  "trim ''   '' = []"
  "trim ''abc'' = ''abc''"
  "trim ''MTpkZW1vQHN'' = ''MTpkZW1vQHN''"
  "trim ''MTpkZW1vQHNhbXBsZS5jb206MTcwMDAwMDAwMDAwMA '' = ''MTpkZW1vQHNhbXBsZS5jb206MTcwMDAwMDAwMDAwMA''"
  "trim ''MTpkZW1vQHNhbXBsZS5jb206MTcwMDAwMDAwMDAwMA'' = ''MTpkZW1vQHNhbXBsZS5jb206MTcwMDAwMDAwMDAwMA''"
  "trim ''MTpkZW1vQHNhbXBsZS5jb206MTcwMDAwMDAwMDAw'' = ''MTpkZW1vQHNhbXBsZS5jb206MTcwMDAwMDAwMDAw''"
  "trim ''MS4wMDAwMDAwMDAwMDAwMDAwMDAwMTpkZW1vQHNhbXBsZS5jb20'' =
     ''MS4wMDAwMDAwMDAwMDAwMDAwMDAwMTpkZW1vQHNhbXBsZS5jb20''"
  by code_simp+

lemma demo_tokens:
  "parseToken ''abc'' = None"
  "parseToken ''MTpkZW1vQHN'' = Some (Finite 1 0, ''demo@s'')"
  "parseToken ''MTpkZW1vQHNhbXBsZS5jb206MTcwMDAwMDAwMDAwMA'' = Some (Finite 1 0, ''demo@sample.com'')"
  "parseToken ''MTpkZW1vQHNhbXBsZS5jb206MTcwMDAwMDAwMDAw'' = Some (Finite 1 0, ''demo@sample.com'')"
  "parseToken ''MS4wMDAwMDAwMDAwMDAwMDAwMDAwMTpkZW1vQHNhbXBsZS5jb20'' =
     Some (Finite 1 0, ''demo@sample.com'')"
  by code_simp+

lemma demo_token:
  "createToken (hd (users demo_db)) 1700000000000 = ''MTpkZW1vQHNhbXBsZS5jb206MTcwMDAwMDAwMDAwMA''"
  unfolding demo_db_users by code_simp



subsection \<open>Issued tokens and emails with a colon\<close>

lemma colon_user_row: "user_row colon_user = colon_user"
  by (simp add: user_row_def colon_user_def demo_time_text) (simp add: column_text_def)

lemma colon_signup:
  "signup toLowerCase_ascii demo_later_time ms colon_signup_body demo_db =
     (sendSuccess (Some (JObj [(''token'', JStr (createToken colon_user ms)),
                               (''user'', mapUser colon_user)])) 201,
      demo_db\<lparr>users := users demo_db @ [colon_user], users_seq := 2\<rparr>)"
proof -
  have f: "trim ''Ann'' = ''Ann''" "toLowerCase_ascii (trim ''a:b@x.com'') = ''a:b@x.com''"
    "trim ''pw'' = ''pw''"
    by code_simp+
  have i: "next_rowid (users_seq demo_db) (map u_id (users demo_db)) = 2"
    by (simp add: demo_db_users demo_db_seqs next_rowid_def)
  have n: "select_user_by_email demo_db ''a:b@x.com'' = None"
    by (simp add: select_user_by_email_def demo_db_users)
  have ins: "insert_user demo_db ''Ann'' ''a:b@x.com'' ''pw'' demo_later_time demo_later_time =
      Inr (demo_db\<lparr>users := users demo_db @ [colon_user], users_seq := 2\<rparr>, 2)"
    by (simp add: insert_user_def i Let_def colon_user_def) (simp add: demo_db_users)
  have sel: "select_user_by_id (demo_db\<lparr>users := users demo_db @ [colon_user], users_seq := 2\<rparr>)
               (of_integer 2) = Some (user_row colon_user)"
    by (simp add: select_user_by_id_def demo_db_users) (simp add: colon_user_def)
  show ?thesis
    by (simp add: signup_def signup_between_def colon_signup_body_def field_def f Let_def n ins sel
        colon_user_row)
qed

lemma colon_token: "createToken colon_user 1700000000000 = ''MjphOmJAeC5jb206MTcwMDAwMDAwMDAwMA''"
  unfolding colon_user_def by code_simp

lemma colon_token_parsed:
  "readBearerToken (Some ''Bearer MjphOmJAeC5jb206MTcwMDAwMDAwMDAwMA'') = Some ''MjphOmJAeC5jb206MTcwMDAwMDAwMDAwMA''"
  "parseToken ''MjphOmJAeC5jb206MTcwMDAwMDAwMDAwMA'' = Some (Finite 2 0, ''a'')"
  by code_simp+

text \<open>
  C2.  Signup accepts any non-empty email.  With a colon in it, the token that signup
  issues decodes to the text before that colon, which is not the stored email, and
  \<^verbatim>\<open>GET /api/auth/me\<close> answers the freshly issued token with 401.
\<close>

theorem colon_email_token_rejected:
  "fst (signup toLowerCase_ascii demo_later_time 1700000000000 colon_signup_body demo_db) =
     sendSuccess (Some (JObj [(''token'', JStr (createToken colon_user 1700000000000)),
                              (''user'', mapUser colon_user)])) 201 \<and>
   users (snd (signup toLowerCase_ascii demo_later_time 1700000000000 colon_signup_body demo_db)) =
     users demo_db @ [colon_user] \<and>
   parseToken (createToken colon_user 1700000000000) = Some (of_integer (u_id colon_user), ''a'') \<and>
   ''a'' \<noteq> u_email colon_user \<and>
   me (Some (''Bearer '' @ createToken colon_user 1700000000000))
      (snd (signup toLowerCase_ascii demo_later_time 1700000000000 colon_signup_body demo_db)) =
     sendError ''Invalid token.'' 401"
  unfolding colon_token colon_signup
  by (simp add: colon_token_parsed me_def select_user_by_id_email_def demo_db_users
      colon_user_def of_integer_def id_is_def)

theorem colon_email_token_rejected_witness:
  "snd (signup toLowerCase_ascii demo_later_time 1700000000000 colon_signup_body demo_db) = two_user_db \<and>
   status (me (Some (''Bearer '' @ createToken colon_user 1700000000000)) two_user_db) = 401"
proof -
  have "snd (signup toLowerCase_ascii demo_later_time 1700000000000 colon_signup_body demo_db) = two_user_db"
    by (simp add: colon_signup two_user_db_def)
  with colon_email_token_rejected show ?thesis by simp
qed

subsection \<open>Issued tokens and emails without a colon\<close>

text \<open>
  Where the stored email is well-formed UTF-8, not empty and free of colons and of zero
  characters, and the id is below \<open>2^53\<close> in size, the decoder undoes the encoder, and the
  me route accepts what login issues.
\<close>

lemma String_of_int_chars:
  "String_of_int i \<noteq> [] \<and> (\<forall>c\<in>set (String_of_int i). c < CHR 0x80 \<and> c \<noteq> CHR '':'')"
proof -
  have d: "c < CHR 0x80 \<and> c \<noteq> CHR '':''" if "isDecimalDigit c" for c
    using that by (auto simp: isDecimalDigit_def less_eq_char_def less_char_def)
  have m: "CHR ''-'' < CHR 0x80 \<and> CHR ''-'' \<noteq> CHR '':''"
    by (simp add: less_char_def)
  show ?thesis
  proof (cases "i < 0")
    case True
    with digits_of_props [of "- i"] d m show ?thesis
      by (auto simp: String_of_int_def list_all_iff)
  next
    case False
    with digits_of_props [of i] d show ?thesis
      by (auto simp: String_of_int_def list_all_iff)
  qed
qed

lemma decoded_createToken:
  assumes "utf8_toString (u_email u) = u_email u"
  shows "utf8_toString (base64url_decode (createToken u ms)) =
           String_of_int (u_id u) @ CHR '':'' # u_email u @ CHR '':'' # String_of_int ms"
proof -
  let ?I = "String_of_int (u_id u)" and ?E = "u_email u" and ?T = "String_of_int ms"
  have c: "CHR '':'' < CHR 0x80" by (simp add: less_char_def)
  have I: "\<forall>c\<in>set ?I. c < CHR 0x80" and T: "\<forall>c\<in>set ?T. c < CHR 0x80"
    using String_of_int_chars by blast+
  have "utf8_toString (?T @ []) = ?T @ utf8_toString []"
    using T by (rule utf8_toString_ascii_prefix)
  then have t: "utf8_toString ?T = ?T" by simp
  have "utf8_toString (?E @ CHR '':'' # ?T) = utf8_toString ?E @ utf8_toString (CHR '':'' # ?T)"
    using c by (rule utf8_toString_ascii_next)
  also have "\<dots> = ?E @ CHR '':'' # ?T"
    using assms c t by simp
  finally have e: "utf8_toString (?E @ CHR '':'' # ?T) = ?E @ CHR '':'' # ?T" .
  have "utf8_toString (?I @ CHR '':'' # ?E @ CHR '':'' # ?T) =
          ?I @ utf8_toString (CHR '':'' # ?E @ CHR '':'' # ?T)"
    using I by (rule utf8_toString_ascii_prefix)
  also have "\<dots> = ?I @ CHR '':'' # ?E @ CHR '':'' # ?T"
    using c e by simp
  finally show ?thesis
    by (simp add: createToken_def base64url_roundtrip)
qed

lemma parseToken_createToken:
  assumes "u_email u \<noteq> []" and "CHR '':'' \<notin> set (u_email u)"
    and "utf8_toString (u_email u) = u_email u"
    and "- (2 ^ 53) < u_id u" and "u_id u < 2 ^ 53"
  shows "parseToken (createToken u ms) = Some (of_integer (u_id u), u_email u)"
proof -
  let ?I = "String_of_int (u_id u)" and ?E = "u_email u" and ?T = "String_of_int ms"
  have I: "CHR '':'' \<notin> set ?I" using String_of_int_chars by blast
  have "split CHR '':'' (?I @ CHR '':'' # ?E @ CHR '':'' # ?T) = ?I # split CHR '':'' (?E @ CHR '':'' # ?T)"
    using I by (rule split_before_colon)
  also have "split CHR '':'' (?E @ CHR '':'' # ?T) = ?E # split CHR '':'' ?T"
    using assms(2) by (rule split_before_colon)
  finally have "split CHR '':'' (utf8_toString (base64url_decode (createToken u ms))) =
      ?I # ?E # split CHR '':'' ?T"
    by (simp only: decoded_createToken [OF assms(3)])
  then show ?thesis
    using assms(1) by (simp add: parseToken_def Let_def StringToNumber_String_of_int [OF assms(4,5)])
qed

lemma createToken_trimmed: "trim (createToken u ms) = createToken u ms \<and> createToken u ms \<noteq> []"
proof -
  let ?X = "String_of_int (u_id u) @ '':'' @ u_email u @ '':'' @ String_of_int ms"
  let ?bits = "concat (map bits_of_byte ?X)"
  let ?tok = "createToken u ms"
  from String_of_int_chars [of "u_id u"] obtain c r where "?X = c # r"
    by (cases "String_of_int (u_id u)") auto
  then have "?bits \<noteq> []" by (cases c) (simp add: bits_of_byte_def)
  then have "sextets ?bits \<noteq> []" by (cases ?bits rule: sextets.cases) auto
  then have ne: "?tok \<noteq> []" by (simp add: createToken_def base64url_encode_def)
  from sextets_props [of ?bits] have six: "\<forall>s\<in>set (sextets ?bits). length s = 6" by blast
  have ch: "c < CHR 0x80 \<and> \<not> ws1 c" if "c \<in> set ?tok" for c
    using that six sextet_bits alphabet_char(3,4)
    by (auto simp: createToken_def base64url_encode_def)
  from ne have "hd ?tok \<in> set ?tok" "last ?tok \<in> set ?tok" by simp_all
  with ch have "hd ?tok < CHR 0x80" "\<not> ws1 (hd ?tok)" "last ?tok < CHR 0x80" "\<not> ws1 (last ?tok)"
    by blast+
  with ne show ?thesis by (simp add: trim_ascii_ends)
qed

lemma user_row_whole:
  assumes "CHR 0x00 \<notin> set (u_email u)"
  shows "createToken (user_row u) ms = createToken u ms"
  using assms by (simp add: createToken_def column_text_id)

lemma issued_token_accepted:
  assumes "u \<in> set (users db)"
    and "u_email u \<noteq> []" and "CHR '':'' \<notin> set (u_email u)"
    and "utf8_toString (u_email u) = u_email u"
    and "- (2 ^ 53) < u_id u" and "u_id u < 2 ^ 53"
  shows "\<exists>v\<in>set (users db). u_id v = u_id u \<and> u_email v = u_email u \<and>
           me (Some (''Bearer '' @ createToken u ms)) db =
             sendSuccess (Some (JObj [(''user'', mapUser (user_row v))])) 200"
proof -
  let ?tok = "createToken u ms"
  from createToken_trimmed [of u ms]
  have rb: "readBearerToken (Some (''Bearer '' @ ?tok)) = Some ?tok" and ne: "?tok \<noteq> []"
    by (simp_all add: readBearerToken_def startsWith_def)
  from assms(1) have "select_user_by_id_email db (of_integer (u_id u)) (u_email u) \<noteq> None"
    by (auto simp: select_user_by_id_email_None)
  then obtain r where r: "select_user_by_id_email db (of_integer (u_id u)) (u_email u) = Some r"
    by auto
  from select_user_by_id_email_Some [OF r] obtain v where
    v: "v \<in> set (users db)" "u_id v = u_id u" "u_email v = u_email u" "r = user_row v"
    by auto
  have "me (Some (''Bearer '' @ ?tok)) db = sendSuccess (Some (JObj [(''user'', mapUser (user_row v))])) 200"
    unfolding me_def rb using ne r v(4) by (simp add: parseToken_createToken [OF assms(2-6)])
  with v(1-3) show ?thesis by blast
qed

lemma same_id_same_row:
  assumes "distinct (map u_id us)" "u \<in> set us" "v \<in> set us" "u_id v = u_id u"
  shows "v = u"
  using assms by (auto simp: distinct_map inj_on_def)

lemma login_token_accepted:
  assumes "status (login toLowerCase ms b db) = 200"
    and "\<forall>u\<in>set (users db). u_email u \<noteq> [] \<and> CHR '':'' \<notin> set (u_email u) \<and>
            CHR 0x00 \<notin> set (u_email u) \<and> utf8_toString (u_email u) = u_email u \<and>
            - (2 ^ 53) < u_id u \<and> u_id u < 2 ^ 53"
    and "distinct (map u_id (users db))"
  shows "\<exists>u\<in>set (users db). \<exists>token.
           login toLowerCase ms b db =
             sendSuccess (Some (JObj [(''token'', JStr token),
                                      (''user'', mapUser (user_row u))])) 200 \<and>
           me (Some (''Bearer '' @ token)) db =
             sendSuccess (Some (JObj [(''user'', mapUser (user_row u))])) 200"
proof -
  let ?e = "toLowerCase (trim (field b ''email''))"
  from assms(1) obtain r where r: "select_user_by_email db ?e = Some r"
    and l: "login toLowerCase ms b db =
             sendSuccess (Some (JObj [(''token'', JStr (createToken r ms)),
                                      (''user'', mapUser r)])) 200"
    by (cases "select_user_by_email db ?e") (auto simp: login_def Let_def split: if_splits)
  from select_user_by_email_Some [OF r] obtain u where
    in_db: "u \<in> set (users db)" and ru: "r = user_row u"
    by blast
  with assms(2) have p: "u_email u \<noteq> []" "CHR '':'' \<notin> set (u_email u)"
    "utf8_toString (u_email u) = u_email u" "- (2 ^ 53) < u_id u" "u_id u < 2 ^ 53"
    and z: "CHR 0x00 \<notin> set (u_email u)"
    by blast+
  from issued_token_accepted [OF in_db p, of ms] obtain v where
    v: "v \<in> set (users db)" "u_id v = u_id u"
      "me (Some (''Bearer '' @ createToken u ms)) db =
         sendSuccess (Some (JObj [(''user'', mapUser (user_row v))])) 200"
    by blast
  from same_id_same_row [OF assms(3) in_db v(1,2)] have "v = u" .
  with v(3) l ru in_db user_row_whole [OF z, of ms] show ?thesis by auto
qed

subsection \<open>The token decoder\<close>

lemma split_first:
  "split sep s =
     takeWhile (\<lambda>c. c \<noteq> sep) s #
     (if sep \<in> set s then split sep (tl (dropWhile (\<lambda>c. c \<noteq> sep) s)) else [])"
  by (induction s) auto

lemma split_second:
  assumes "sep \<in> set s"
  shows "\<exists>r. split sep s =
           takeWhile (\<lambda>c. c \<noteq> sep) s #
           takeWhile (\<lambda>c. c \<noteq> sep) (tl (dropWhile (\<lambda>c. c \<noteq> sep) s)) # r"
  using assms split_first [of sep s] split_first [of sep "tl (dropWhile (\<lambda>c. c \<noteq> sep) s)"]
  by simp

lemma parseToken_decode_spec: "parseToken t = decode_spec (utf8_toString (base64url_decode t))"
proof (cases "CHR '':'' \<in> set (utf8_toString (base64url_decode t))")
  case True
  from split_second [OF True] obtain r where
    "split CHR '':'' (utf8_toString (base64url_decode t)) =
       takeWhile (\<lambda>c. c \<noteq> CHR '':'') (utf8_toString (base64url_decode t)) #
       takeWhile (\<lambda>c. c \<noteq> CHR '':'')
         (tl (dropWhile (\<lambda>c. c \<noteq> CHR '':'') (utf8_toString (base64url_decode t)))) # r"
    by blast
  with True show ?thesis
    by (simp add: parseToken_def decode_spec_def Let_def)
next
  case False
  with split_first [of "CHR '':''" "utf8_toString (base64url_decode t)"] show ?thesis
    by (simp add: parseToken_def decode_spec_def Let_def)
qed

lemma parseToken_empty: "parseToken [] = None"
  by code_simp

text \<open>
  C3 (amended).  \<^verbatim>\<open>parseToken\<close> is total, and it is the decoder of the specification on the
  text that the token decodes to, whatever the token: no result when that text has no
  colon, when the text before its first colon is not an integer for \<^verbatim>\<open>Number\<close>, or when the
  text between its first and second colon is empty, and the pair of the two otherwise.
  \<^verbatim>\<open>GET /api/auth/me\<close> answers 401 or 200 on every header: 401 whenever the token does not
  decode, and 200 exactly when the token decodes to the id and email of a stored user,
  which a tampered token may still do.
\<close>

theorem parseToken_total:
  "parseToken t = decode_spec (utf8_toString (base64url_decode t)) \<and>
   (status (me h db) = 401 \<or> status (me h db) = 200) \<and>
   (\<forall>v. h = Some (''Bearer '' @ v) \<and> parseToken (trim v) = None \<longrightarrow> status (me h db) = 401) \<and>
   (status (me h db) = 200 \<longleftrightarrow>
      (\<exists>v c. h = Some (''Bearer '' @ v) \<and> parseToken (trim v) = Some c \<and>
         (\<exists>u\<in>set (users db). id_is (fst c) (u_id u) \<and> u_email u = snd c)))"
proof (intro conjI allI impI)
  show "parseToken t = decode_spec (utf8_toString (base64url_decode t))"
    by (rule parseToken_decode_spec)
next
  show "status (me h db) = 401 \<or> status (me h db) = 200"
    by (auto simp: me_def split: option.splits)
next
  fix v
  assume "h = Some (''Bearer '' @ v) \<and> parseToken (trim v) = None"
  then have "readBearerToken h = Some (trim v)" "parseToken (trim v) = None"
    using readBearerToken_Bearer [of v] by metis+
  then show "status (me h db) = 401"
    by (simp add: me_def)
next
  show "status (me h db) = 200 \<longleftrightarrow>
      (\<exists>v c. h = Some (''Bearer '' @ v) \<and> parseToken (trim v) = Some c \<and>
         (\<exists>u\<in>set (users db). id_is (fst c) (u_id u) \<and> u_email u = snd c))"
  proof
    assume ok: "status (me h db) = 200"
    then obtain tok where tok: "readBearerToken h = Some tok" "tok \<noteq> []"
      by (cases "readBearerToken h") (auto simp: me_def split: if_splits)
    then obtain w where w: "h = Some w" "take 7 w = ''Bearer ''"
      using readBearerToken_None readBearerToken_other by (cases h) fastforce+
    then have "w = ''Bearer '' @ drop 7 w"
      by (metis append_take_drop_id)
    with w(1) obtain v where v: "h = Some (''Bearer '' @ v)" by blast
    with tok have tv: "tok = trim v"
      using readBearerToken_Bearer [of v] by simp
    from ok tok obtain c where c: "parseToken tok = Some c"
      by (cases "parseToken tok") (auto simp: me_def)
    with ok tok obtain r where "select_user_by_id_email db (fst c) (snd c) = Some r"
      by (cases "select_user_by_id_email db (fst c) (snd c)") (auto simp: me_def)
    from select_user_by_id_email_Some [OF this] v c tv
    show "\<exists>v c. h = Some (''Bearer '' @ v) \<and> parseToken (trim v) = Some c \<and>
         (\<exists>u\<in>set (users db). id_is (fst c) (u_id u) \<and> u_email u = snd c)"
      by blast
  next
    assume "\<exists>v c. h = Some (''Bearer '' @ v) \<and> parseToken (trim v) = Some c \<and>
         (\<exists>u\<in>set (users db). id_is (fst c) (u_id u) \<and> u_email u = snd c)"
    then obtain v c where h: "h = Some (''Bearer '' @ v)" and c: "parseToken (trim v) = Some c"
      and u: "\<exists>u\<in>set (users db). id_is (fst c) (u_id u) \<and> u_email u = snd c"
      by blast
    from h have rb: "readBearerToken h = Some (trim v)"
      using readBearerToken_Bearer [of v] by simp
    from c parseToken_empty have ne: "trim v \<noteq> []" by auto
    from u have "select_user_by_id_email db (fst c) (snd c) \<noteq> None"
      by (simp add: select_user_by_id_email_None)
    with rb ne c show "status (me h db) = 200"
      by (auto simp: me_def)
  qed
qed

lemma demo_decoded:
  "utf8_toString (base64url_decode ''abc'') = [CHR ''i'', CHR 0xEF, CHR 0xBF, CHR 0xBD]"
  "utf8_toString (base64url_decode ''MTo'') = ''1:''"
  "utf8_toString (base64url_decode ''eDph'') = ''x:a''"
  "utf8_toString (base64url_decode ''MTpkZW1vQHNhbXBsZS5jb206MTcwMDAwMDAwMDAwMA'') =
     ''1:demo@sample.com:1700000000000''"
  by code_simp+

theorem parseToken_total_witness:
  "parseToken ''abc'' = None \<and>
   parseToken ''MTo'' = None \<and>
   parseToken ''eDph'' = None \<and>
   parseToken ''MTpkZW1vQHNhbXBsZS5jb206MTcwMDAwMDAwMDAwMA'' = Some (of_integer 1, ''demo@sample.com'') \<and>
   status (me (Some (''Bearer '' @ ''abc'')) demo_db) = 401 \<and>
   status (me (Some (''Bearer '' @ ''MTpkZW1vQHN'')) demo_db) = 401 \<and>
   status (me (Some (''Bearer '' @ ''MTpkZW1vQHNhbXBsZS5jb206MTcwMDAwMDAwMDAwMA'')) demo_db) = 200"
proof -
  let ?tok = "''MTpkZW1vQHNhbXBsZS5jb206MTcwMDAwMDAwMDAwMA''"
  have n: "StringToNumber ''1'' = Finite 1 0" "StringToNumber ''x'' = NaN"
    "StringToNumber ''i'' = NaN"
    by code_simp+
  have 1: "parseToken ''abc'' = None"
    using parseToken_total [of "''abc''" None demo_db]
    by (simp only: demo_decoded) (simp add: decode_spec_def)
  have 2: "parseToken ''MTo'' = None"
    using parseToken_total [of "''MTo''" None demo_db]
    by (simp only: demo_decoded) (simp add: decode_spec_def)
  have 3: "parseToken ''eDph'' = None"
    using parseToken_total [of "''eDph''" None demo_db]
    by (simp only: demo_decoded) (simp add: decode_spec_def n Number_isInteger_def)
  have 4: "parseToken ?tok = Some (of_integer 1, ''demo@sample.com'')"
    using parseToken_total [of ?tok None demo_db]
    by (simp only: demo_decoded) (simp add: decode_spec_def n Number_isInteger_def of_integer_def)
  have bad: "status (me (Some (''Bearer '' @ v)) demo_db) = 401" if "parseToken (trim v) = None" for v
    using parseToken_total [of t "Some (''Bearer '' @ v)" demo_db] that by blast
  have good: "status (me (Some (''Bearer '' @ v)) demo_db) = 200"
    if "parseToken (trim v) = Some c"
      "\<exists>u\<in>set (users demo_db). id_is (fst c) (u_id u) \<and> u_email u = snd c" for v c
    using parseToken_total [of t "Some (''Bearer '' @ v)" demo_db] that by blast
  have other: "status (me (Some (''Bearer '' @ v)) demo_db) = 401"
    if "parseToken (trim v) = Some c"
      "\<forall>u\<in>set (users demo_db). \<not> (id_is (fst c) (u_id u) \<and> u_email u = snd c)" for v c
  proof -
    note T = parseToken_total [of t "Some (''Bearer '' @ v)" demo_db]
    have "status (me (Some (''Bearer '' @ v)) demo_db) \<noteq> 200"
    proof
      assume "status (me (Some (''Bearer '' @ v)) demo_db) = 200"
      with T obtain v' c' where a: "Some (''Bearer '' @ v) = Some (''Bearer '' @ v')"
        "parseToken (trim v') = Some c'"
        "\<exists>u\<in>set (users demo_db). id_is (fst c') (u_id u) \<and> u_email u = snd c'"
        by blast
      from a(1) have "v' = v" by simp
      with a(2) that(1) have "c' = c" by simp
      with a(3) that(2) show False by blast
    qed
    with T show ?thesis by blast
  qed
  have 5: "status (me (Some (''Bearer '' @ ''abc'')) demo_db) = 401"
    by (rule bad) (simp only: demo_trims demo_tokens)
  have 6: "status (me (Some (''Bearer '' @ ''MTpkZW1vQHN'')) demo_db) = 401"
    by (rule other [where c = "(Finite 1 0, ''demo@s'')"])
      (simp_all only: demo_trims demo_tokens, simp_all add: demo_db_users)
  have 7: "status (me (Some (''Bearer '' @ ?tok)) demo_db) = 200"
    by (rule good [where c = "(Finite 1 0, ''demo@sample.com'')"])
      (simp_all only: demo_trims demo_tokens, simp_all add: demo_db_users id_is_def of_integer_def)
  from 1 2 3 4 5 6 7 show ?thesis by blast
qed

text \<open>
  The claim as stated has every tampered token answered with 401.  The token issued to
  the seed user, cut short by two characters, loses digits of its timestamp only and is
  answered with 200.
\<close>

theorem truncated_token_accepted:
  "take 40 (createToken (hd (users demo_db)) 1700000000000) \<noteq>
     createToken (hd (users demo_db)) 1700000000000 \<and>
   status (me (Some (''Bearer '' @ take 40 (createToken (hd (users demo_db)) 1700000000000))) demo_db) = 200"
proof -
  have r: "readBearerToken (Some (''Bearer '' @ ''MTpkZW1vQHNhbXBsZS5jb206MTcwMDAwMDAwMDAw'')) =
      Some ''MTpkZW1vQHNhbXBsZS5jb206MTcwMDAwMDAwMDAw''"
    by (simp only: readBearerToken_Bearer demo_trims)
  have t: "take 40 ''MTpkZW1vQHNhbXBsZS5jb206MTcwMDAwMDAwMDAwMA'' = ''MTpkZW1vQHNhbXBsZS5jb206MTcwMDAwMDAwMDAw''"
    by simp
  have s: "select_user_by_id_email demo_db (Finite 1 0) ''demo@sample.com'' \<noteq> None"
    by (simp add: select_user_by_id_email_None demo_db_users id_is_def of_integer_def)
  have "status (me (Some (''Bearer '' @ ''MTpkZW1vQHNhbXBsZS5jb206MTcwMDAwMDAwMDAw'')) demo_db) = 200"
    unfolding me_def r using s by (auto simp: demo_tokens)
  then show ?thesis
    unfolding demo_token t by simp
qed

subsection \<open>Signing up with a registered email\<close>

lemma signup_registered:
  assumes "trim (field b ''name'') \<noteq> []"
    and "toLowerCase (trim (field b ''email'')) \<noteq> []"
    and "trim (field b ''password'') \<noteq> []"
    and "u \<in> set (users db)"
    and "u_email u = toLowerCase (trim (field b ''email''))"
  shows "signup_between toLowerCase now ms b db db2 =
           (sendError ''This email is already registered.'' 409, db)"
proof -
  let ?e = "toLowerCase (trim (field b ''email''))"
  from assms(4,5) have "select_user_by_email db ?e \<noteq> None"
    by (auto simp: select_user_by_email_None)
  then obtain r where "select_user_by_email db ?e = Some r" by auto
  with assms(1-3) show ?thesis
    by (simp add: signup_between_def Let_def)
qed

lemma signup_unique_violation:
  assumes "trim (field b ''name'') \<noteq> []"
    and "toLowerCase (trim (field b ''email'')) \<noteq> []"
    and "trim (field b ''password'') \<noteq> []"
    and "\<forall>v\<in>set (users db). u_email v \<noteq> toLowerCase (trim (field b ''email''))"
    and "w \<in> set (users db2)"
    and "u_email w = toLowerCase (trim (field b ''email''))"
  shows "signup_between toLowerCase now ms b db db2 =
           (sendError ''UNIQUE constraint failed: users.email'' 500, db2)"
proof -
  let ?e = "toLowerCase (trim (field b ''email''))"
  from assms(4) have "select_user_by_email db ?e = None"
    by (simp add: select_user_by_email_None)
  moreover from assms(5,6) have "list_ex (\<lambda>u. u_email u = ?e) (users db2)"
    by (auto simp: list_ex_iff)
  ultimately show ?thesis
    using assms(1-3) by (simp add: signup_between_def insert_user_def Let_def)
qed

text \<open>
  C4 (amended).  Take a signup request that passes validation: its trimmed name, its
  trimmed and lowered email and its trimmed password are not empty.  When its email,
  trimmed and lowered, is the email of a stored user, the answer is 409 and the database
  is as it was.  So it is when the email equals a stored email up to case, the stored
  emails being in lower case as the code writes them (lemmas \<open>stored_lowercase_startup\<close>
  and \<open>stored_lowercase_signup\<close>).  When the email is not stored at the handler's SELECT
  but is at its INSERT, the INSERT fails on the UNIQUE constraint; the handler's \<^verbatim>\<open>catch\<close>
  answers with the error envelope, status 500 and the message of the constraint, and the
  handler adds no row.
\<close>

theorem signup_duplicate_email:
  assumes "trim (field b ''name'') \<noteq> []"
    and "toLowerCase (trim (field b ''email'')) \<noteq> []"
    and "trim (field b ''password'') \<noteq> []"
  shows "(u \<in> set (users db) \<and> u_email u = toLowerCase (trim (field b ''email'')) \<longrightarrow>
            signup toLowerCase now ms b db =
              (sendError ''This email is already registered.'' 409, db)) \<and>
         (u \<in> set (users db) \<and> stored_lowercase toLowerCase db \<and>
          toLowerCase (u_email u) = toLowerCase (trim (field b ''email'')) \<longrightarrow>
            signup toLowerCase now ms b db =
              (sendError ''This email is already registered.'' 409, db)) \<and>
         ((\<forall>v\<in>set (users db). u_email v \<noteq> toLowerCase (trim (field b ''email''))) \<and>
          w \<in> set (users db_at_insert) \<and> u_email w = toLowerCase (trim (field b ''email'')) \<longrightarrow>
            signup_between toLowerCase now ms b db db_at_insert =
              (\<lparr>status = 500,
                body = JObj [(''success'', JBool False),
                             (''error'', JStr ''UNIQUE constraint failed: users.email'')]\<rparr>,
               db_at_insert))"
proof (intro conjI impI)
  assume "u \<in> set (users db) \<and> u_email u = toLowerCase (trim (field b ''email''))"
  then show "signup toLowerCase now ms b db =
              (sendError ''This email is already registered.'' 409, db)"
    using signup_registered [where toLowerCase = toLowerCase and b = b and u = u and db = db
        and ?db2.0 = db and now = now and ms = ms] assms
    by (simp add: signup_def)
next
  assume a: "u \<in> set (users db) \<and> stored_lowercase toLowerCase db \<and>
          toLowerCase (u_email u) = toLowerCase (trim (field b ''email''))"
  then have m: "u \<in> set (users db)" and l: "stored_lowercase toLowerCase db"
    and e: "toLowerCase (u_email u) = toLowerCase (trim (field b ''email''))"
    by blast+
  from m l have "u_email u = toLowerCase (u_email u)"
    by (simp add: stored_lowercase_def list_all_iff)
  also note e
  finally have "u_email u = toLowerCase (trim (field b ''email''))" .
  with m show "signup toLowerCase now ms b db =
              (sendError ''This email is already registered.'' 409, db)"
    using signup_registered [where toLowerCase = toLowerCase and b = b and u = u and db = db
        and ?db2.0 = db and now = now and ms = ms] assms
    by (simp add: signup_def)
next
  assume "(\<forall>v\<in>set (users db). u_email v \<noteq> toLowerCase (trim (field b ''email''))) \<and>
          w \<in> set (users db_at_insert) \<and> u_email w = toLowerCase (trim (field b ''email''))"
  then show "signup_between toLowerCase now ms b db db_at_insert =
              (\<lparr>status = 500,
                body = JObj [(''success'', JBool False),
                             (''error'', JStr ''UNIQUE constraint failed: users.email'')]\<rparr>,
               db_at_insert)"
    using signup_unique_violation [where toLowerCase = toLowerCase and b = b and db = db
        and w = w and ?db2.0 = db_at_insert and now = now and ms = ms] assms
    by (simp add: sendError_def)
qed

lemma demo_db_stored_lowercase: "stored_lowercase toLowerCase_ascii demo_db"
proof -
  have "toLowerCase_ascii ''demo@sample.com'' = ''demo@sample.com''" by code_simp
  then show ?thesis by (simp add: stored_lowercase_def demo_db_users)
qed

lemma duplicate_signup_body_fields:
  "trim (field duplicate_signup_body ''name'') = ''Eve''"
  "toLowerCase_ascii (trim (field duplicate_signup_body ''email'')) = ''demo@sample.com''"
  "trim (field duplicate_signup_body ''password'') = ''pw''"
  "toLowerCase_ascii ''demo@sample.com'' = ''demo@sample.com''"
  unfolding duplicate_signup_body_def field_def by code_simp+

lemma colon_signup_body_fields:
  "trim (field colon_signup_body ''name'') = ''Ann''"
  "toLowerCase_ascii (trim (field colon_signup_body ''email'')) = ''a:b@x.com''"
  "trim (field colon_signup_body ''password'') = ''pw''"
  unfolding colon_signup_body_def field_def by code_simp+

theorem signup_duplicate_email_witness:
  "signup toLowerCase_ascii demo_later_time 1700000000000 duplicate_signup_body demo_db =
     (sendError ''This email is already registered.'' 409, demo_db) \<and>
   stored_lowercase toLowerCase_ascii demo_db \<and>
   toLowerCase_ascii (u_email (hd (users demo_db))) =
     toLowerCase_ascii (trim (field duplicate_signup_body ''email'')) \<and>
   signup_between toLowerCase_ascii demo_later_time 1700000000000 colon_signup_body demo_db two_user_db =
     (\<lparr>status = 500,
       body = JObj [(''success'', JBool False),
                    (''error'', JStr ''UNIQUE constraint failed: users.email'')]\<rparr>,
      two_user_db)"
proof -
  let ?u = "hd (users demo_db)"
  have v: "trim (field duplicate_signup_body ''name'') \<noteq> []"
    "toLowerCase_ascii (trim (field duplicate_signup_body ''email'')) \<noteq> []"
    "trim (field duplicate_signup_body ''password'') \<noteq> []"
    by (simp_all add: duplicate_signup_body_fields)
  have v': "trim (field colon_signup_body ''name'') \<noteq> []"
    "toLowerCase_ascii (trim (field colon_signup_body ''email'')) \<noteq> []"
    "trim (field colon_signup_body ''password'') \<noteq> []"
    by (simp_all add: colon_signup_body_fields)
  have a: "?u \<in> set (users demo_db) \<and>
           u_email ?u = toLowerCase_ascii (trim (field duplicate_signup_body ''email''))"
    by (simp add: demo_db_users duplicate_signup_body_fields)
  have b: "?u \<in> set (users demo_db) \<and> stored_lowercase toLowerCase_ascii demo_db \<and>
           toLowerCase_ascii (u_email ?u) =
             toLowerCase_ascii (trim (field duplicate_signup_body ''email''))"
    by (simp add: demo_db_users duplicate_signup_body_fields demo_db_stored_lowercase)
  have c: "(\<forall>v\<in>set (users demo_db).
              u_email v \<noteq> toLowerCase_ascii (trim (field colon_signup_body ''email''))) \<and>
           colon_user \<in> set (users two_user_db) \<and>
           u_email colon_user = toLowerCase_ascii (trim (field colon_signup_body ''email''))"
    by (simp add: demo_db_users colon_signup_body_fields two_user_db_def colon_user_def)
  note t1 = signup_duplicate_email [where toLowerCase = toLowerCase_ascii
      and b = duplicate_signup_body and u = ?u and db = demo_db and now = demo_later_time
      and ms = 1700000000000, OF v]
  note t2 = signup_duplicate_email [where toLowerCase = toLowerCase_ascii
      and b = colon_signup_body and db = demo_db and w = colon_user
      and db_at_insert = two_user_db and now = demo_later_time and ms = 1700000000000, OF v']
  from t1 a have 1: "signup toLowerCase_ascii demo_later_time 1700000000000 duplicate_signup_body demo_db =
     (sendError ''This email is already registered.'' 409, demo_db)"
    by blast
  from t2 c have 2: "signup_between toLowerCase_ascii demo_later_time 1700000000000
        colon_signup_body demo_db two_user_db =
     (\<lparr>status = 500,
       body = JObj [(''success'', JBool False),
                    (''error'', JStr ''UNIQUE constraint failed: users.email'')]\<rparr>,
      two_user_db)"
    by blast
  from 1 2 b show ?thesis by blast
qed

text \<open>
  The claim as stated covers every signup request with a registered email.  Validation
  comes first: without a name the answer is 422, whatever the email.
\<close>

theorem signup_without_name_counterexample:
  "hd (users demo_db) \<in> set (users demo_db) \<and>
   u_email (hd (users demo_db)) =
     toLowerCase_ascii (trim (field nameless_signup_body ''email'')) \<and>
   status (fst (signup toLowerCase_ascii demo_later_time 1700000000000 nameless_signup_body demo_db)) = 422"
proof -
  have f: "trim (field nameless_signup_body ''name'') = []"
    "toLowerCase_ascii (trim (field nameless_signup_body ''email'')) = ''demo@sample.com''"
    unfolding nameless_signup_body_def field_def by code_simp+
  show ?thesis
    by (simp add: f signup_def signup_between_def Let_def demo_db_users)
qed

subsection \<open>Passwords stay in the database\<close>

lemma find_public:
  assumes "map public_part xs = map public_part ys" and "\<And>u. P (public_part u) = P u"
  shows "map_option public_part (find P xs) = map_option public_part (find P ys)"
  using assms(1)
proof (induction xs arbitrary: ys)
  case Nil
  then show ?case by simp
next
  case (Cons x xs)
  then obtain y ys' where ys: "ys = y # ys'" "public_part x = public_part y"
    "map public_part xs = map public_part ys'"
    by (cases ys) auto
  from assms(2) [of x] assms(2) [of y] ys(2) have "P x = P y" by simp
  with Cons.IH [OF ys(3)] ys show ?case by simp
qed

lemma public_user_row: "public_part (user_row u) = user_row (public_part u)"
  by (simp add: public_part_def user_row_def column_text_def)

lemma select_public:
  assumes "map public_part xs = map public_part ys" and "\<And>u. P (public_part u) = P u"
  shows "map_option public_part (map_option user_row (find P xs)) =
         map_option public_part (map_option user_row (find P ys))"
proof -
  have "map_option public_part (map_option user_row r) =
        map_option user_row (map_option public_part r)" for r
    by (cases r) (simp_all add: public_user_row)
  with find_public [where P = P, OF assms] show ?thesis by simp
qed

lemma public_fields [simp]:
  "u_id (public_part u) = u_id u" "u_email (public_part u) = u_email u"
  "u_name (public_part u) = u_name u" "u_created_at (public_part u) = u_created_at u"
  by (simp_all add: public_part_def)

lemma mapUser_public: "mapUser (public_part u) = mapUser u"
  by (simp add: mapUser_def)

lemma createToken_public: "createToken (public_part u) ms = createToken u ms"
  by (simp add: createToken_def)

lemma public_eq_views:
  assumes "public_part u = public_part v"
  shows "mapUser u = mapUser v" "createToken u ms = createToken v ms"
proof -
  show "mapUser u = mapUser v"
    by (metis assms mapUser_public)
  show "createToken u ms = createToken v ms"
    by (metis assms createToken_public)
qed

lemma same_public_ids:
  assumes "same_public d1 d2"
  shows "map u_id (users d1) = map u_id (users d2)"
proof -
  have "map u_id (users d1) = map u_id (map public_part (users d1))" by simp
  also have "\<dots> = map u_id (map public_part (users d2))"
    using assms by (simp only: same_public_def)
  also have "\<dots> = map u_id (users d2)" by simp
  finally show ?thesis .
qed

lemma case_option_public:
  assumes "map_option public_part r1 = map_option public_part r2"
    and "\<And>u v. public_part u = public_part v \<Longrightarrow> f u = f v"
  shows "case_option a f r1 = case_option a f r2"
proof (cases r1)
  case None
  with assms(1) show ?thesis by (cases r2) simp_all
next
  case (Some u)
  with assms(1) obtain v where v: "r2 = Some v" "public_part u = public_part v"
    by (cases r2) auto
  from assms(2) [OF v(2)] have "f u = f v" .
  with Some v(1) show ?thesis by simp
qed

lemma me_same_public:
  assumes "same_public d1 d2"
  shows "me h d1 = me h d2"
proof -
  have sel: "map_option public_part (select_user_by_id_email d1 x e) =
        map_option public_part (select_user_by_id_email d2 x e)" for x e
    unfolding select_user_by_id_email_def
    using assms by (intro select_public) (simp_all add: same_public_def)
  have "(case select_user_by_id_email d1 x e of
           None \<Rightarrow> a | Some user \<Rightarrow> sendSuccess (Some (JObj [(''user'', mapUser user)])) 200) =
        (case select_user_by_id_email d2 x e of
           None \<Rightarrow> a | Some user \<Rightarrow> sendSuccess (Some (JObj [(''user'', mapUser user)])) 200)"
    for x e a
  proof (rule case_option_public [OF sel])
    fix u v
    assume "public_part u = public_part v"
    then have "mapUser u = mapUser v" by (rule public_eq_views(1))
    then show "sendSuccess (Some (JObj [(''user'', mapUser u)])) 200 =
               sendSuccess (Some (JObj [(''user'', mapUser v)])) 200"
      by simp
  qed
  note inner = this
  show ?thesis
  proof (cases "readBearerToken h")
    case None
    then show ?thesis by (simp add: me_def)
  next
    case (Some t)
    show ?thesis
    proof (cases "parseToken t")
      case None
      with Some show ?thesis by (simp add: me_def)
    next
      case (Some c)
      with \<open>readBearerToken h = Some t\<close> inner [where x = "fst c" and e = "snd c"] show ?thesis
        by (simp add: me_def)
    qed
  qed
qed

lemma login_same_public:
  assumes "same_public d1 d2" "status (login toLowerCase ms b d1) = status (login toLowerCase ms b d2)"
  shows "login toLowerCase ms b d1 = login toLowerCase ms b d2"
proof -
  let ?e = "toLowerCase (trim (field b ''email''))" and ?pw = "trim (field b ''password'')"
  have sel: "map_option public_part (select_user_by_email d1 ?e) =
        map_option public_part (select_user_by_email d2 ?e)"
    unfolding select_user_by_email_def
    using assms(1) by (intro select_public) (simp_all add: same_public_def)
  show ?thesis
  proof (cases "?e = [] \<or> ?pw = []")
    case True
    then show ?thesis by (simp add: login_def Let_def)
  next
    case valid: False
    show ?thesis
    proof (cases "select_user_by_email d1 ?e")
      case None
      with sel have "select_user_by_email d2 ?e = None"
        by (cases "select_user_by_email d2 ?e") auto
      with None valid show ?thesis by (simp add: login_def Let_def)
    next
      case (Some u)
      with sel obtain v where v: "select_user_by_email d2 ?e = Some v" "public_part u = public_part v"
        by (cases "select_user_by_email d2 ?e") auto
      from public_eq_views [OF v(2)] have eq: "mapUser u = mapUser v" "createToken u ms = createToken v ms"
        by simp_all
      from assms(2) Some v(1) valid have "u_password u \<noteq> ?pw \<longleftrightarrow> u_password v \<noteq> ?pw"
        by (auto simp: login_def Let_def split: if_splits)
      with Some v(1) valid eq show ?thesis by (simp add: login_def Let_def)
    qed
  qed
qed

lemma keys_sendError: "keys (body (sendError e st)) = {''success'', ''error''}"
  by (auto simp: sendError_def)

lemma keys_mapUser: "keys (mapUser u) = {''id'', ''name'', ''email'', ''createdAt''}"
  by (auto simp: mapUser_def)

lemma keys_user_answer:
  "keys (body (sendSuccess (Some (JObj [(''user'', mapUser u)])) st)) =
     {''success'', ''data'', ''user'', ''id'', ''name'', ''email'', ''createdAt''}"
  by (auto simp: sendSuccess_def keys_mapUser)

lemma keys_token_answer:
  "keys (body (sendSuccess (Some (JObj [(''token'', JStr t), (''user'', mapUser u)])) st)) =
     {''success'', ''data'', ''token'', ''user'', ''id'', ''name'', ''email'', ''createdAt''}"
  by (auto simp: sendSuccess_def keys_mapUser)

lemma no_password_key_me: "''password'' \<notin> keys (body (me h db))"
  by (simp add: me_def keys_sendError keys_user_answer split: option.splits)

lemma no_password_key_login: "''password'' \<notin> keys (body (login toLowerCase ms b db))"
  by (simp add: login_def Let_def keys_sendError keys_token_answer split: option.splits)

lemma no_password_key_signup: "''password'' \<notin> keys (body (fst (signup toLowerCase now ms b db)))"
  by (simp add: signup_def signup_between_def Let_def keys_sendError keys_token_answer
      split: option.splits sum.splits prod.splits)

lemma list_ex_find: "list_ex P xs \<longleftrightarrow> find P xs \<noteq> None"
  by (auto simp: list_ex_iff find_None_iff)

lemma signup_same_public:
  assumes "same_public d1 d2"
  shows "fst (signup toLowerCase now ms b d1) = fst (signup toLowerCase now ms b d2) \<and>
         same_public (snd (signup toLowerCase now ms b d1)) (snd (signup toLowerCase now ms b d2))"
proof -
  let ?n = "trim (field b ''name'')" and ?e = "toLowerCase (trim (field b ''email''))"
  let ?pw = "trim (field b ''password'')"
  have sel: "map_option public_part (select_user_by_email d1 ?e) =
        map_option public_part (select_user_by_email d2 ?e)"
    unfolding select_user_by_email_def
    using assms by (intro select_public) (simp_all add: same_public_def)
  show ?thesis
  proof (cases "?n = [] \<or> ?e = [] \<or> ?pw = []")
    case True
    with assms show ?thesis by (simp add: signup_def signup_between_def Let_def)
  next
    case valid: False
    show ?thesis
    proof (cases "select_user_by_email d1 ?e")
      case (Some u)
      with sel obtain v where "select_user_by_email d2 ?e = Some v"
        by (cases "select_user_by_email d2 ?e") auto
      with Some valid assms show ?thesis by (simp add: signup_def signup_between_def Let_def)
    next
      case None
      with sel have None2: "select_user_by_email d2 ?e = None"
        by (cases "select_user_by_email d2 ?e") auto
      let ?i = "next_rowid (users_seq d1) (map u_id (users d1))"
      let ?row = "\<lparr>u_id = ?i, u_name = ?n, u_email = ?e, u_password = ?pw,
                    u_created_at = now, u_updated_at = now\<rparr>"
      let ?d1 = "d1\<lparr>users := users d1 @ [?row], users_seq := ?i\<rparr>"
      let ?d2 = "d2\<lparr>users := users d2 @ [?row], users_seq := ?i\<rparr>"
      have i: "next_rowid (users_seq d2) (map u_id (users d2)) = ?i"
        using assms same_public_ids [OF assms] by (simp add: same_public_def)
      have ins1: "insert_user d1 ?n ?e ?pw now now = Inr (?d1, ?i)"
        using None by (simp add: insert_user_def list_ex_find select_user_by_email_def Let_def)
      have ins2: "insert_user d2 ?n ?e ?pw now now = Inr (?d2, ?i)"
        using None2 i by (simp add: insert_user_def list_ex_find select_user_by_email_def Let_def)
      have sp: "same_public ?d1 ?d2"
        using assms by (simp add: same_public_def)
      have sel': "map_option public_part (select_user_by_id ?d1 (of_integer ?i)) =
                  map_option public_part (select_user_by_id ?d2 (of_integer ?i))"
        unfolding select_user_by_id_def
        using sp by (intro select_public) (simp_all add: same_public_def)
      let ?f = "\<lambda>user. sendSuccess (Some (JObj [(''token'', JStr (createToken user ms)),
                                             (''user'', mapUser user)])) 201"
      have "(case select_user_by_id ?d1 (of_integer ?i) of
               None \<Rightarrow> sendError undefined_id_message 500 | Some user \<Rightarrow> ?f user) =
            (case select_user_by_id ?d2 (of_integer ?i) of
               None \<Rightarrow> sendError undefined_id_message 500 | Some user \<Rightarrow> ?f user)"
      proof (rule case_option_public [OF sel'])
        fix u v
        assume "public_part u = public_part v"
        from public_eq_views [OF this] have "mapUser u = mapUser v" "createToken u ms = createToken v ms"
          by simp_all
        then show "?f u = ?f v" by simp
      qed
      moreover have "signup toLowerCase now ms b d1 =
          (case select_user_by_id ?d1 (of_integer ?i) of
               None \<Rightarrow> sendError undefined_id_message 500 | Some user \<Rightarrow> ?f user, ?d1)"
        using valid None ins1 by (simp add: signup_def signup_between_def Let_def split: option.splits)
      moreover have "signup toLowerCase now ms b d2 =
          (case select_user_by_id ?d2 (of_integer ?i) of
               None \<Rightarrow> sendError undefined_id_message 500 | Some user \<Rightarrow> ?f user, ?d2)"
        using valid None2 ins2 by (simp add: signup_def signup_between_def Let_def split: option.splits)
      ultimately show ?thesis using sp by simp
    qed
  qed
qed

text \<open>
  C10.  No answer of signup, login or me has a property named \<^verbatim>\<open>password\<close>, at any
  depth.  Two databases that differ in stored passwords only get the same answer to the
  same me request and to the same signup request (and differ in stored passwords only
  afterwards); they get the same answer to the same login request whenever they give it
  the same status, so a login answer shows of the stored password only whether it
  matched.
\<close>

theorem password_not_revealed:
  "''password'' \<notin> keys (body (fst (signup toLowerCase now ms b db))) \<and>
   ''password'' \<notin> keys (body (login toLowerCase ms b db)) \<and>
   ''password'' \<notin> keys (body (me h db)) \<and>
   (same_public db db' \<longrightarrow>
      me h db = me h db' \<and>
      fst (signup toLowerCase now ms b db) = fst (signup toLowerCase now ms b db') \<and>
      same_public (snd (signup toLowerCase now ms b db)) (snd (signup toLowerCase now ms b db')) \<and>
      (status (login toLowerCase ms b db) = status (login toLowerCase ms b db') \<longrightarrow> login toLowerCase ms b db = login toLowerCase ms b db'))"
  using no_password_key_signup [of toLowerCase now ms b db]
    no_password_key_login [of toLowerCase ms b db]
    no_password_key_me [of h db] me_same_public [of db db' h]
    signup_same_public [of db db' toLowerCase now ms b]
    login_same_public [of db db' toLowerCase ms b]
  by blast

lemma demo_same_public: "same_public two_user_db other_password_db"
  by (simp add: same_public_def two_user_db_def other_password_db_def public_part_def)

lemma demo_differ: "users two_user_db \<noteq> users other_password_db"
  by (simp add: two_user_db_def other_password_db_def colon_user_def)

lemma demo_login_both:
  "status (login toLowerCase_ascii 1700000000000 demo_login_body two_user_db) = 200"
  "status (login toLowerCase_ascii 1700000000000 demo_login_body other_password_db) = 200"
proof -
  have f: "toLowerCase_ascii (trim (field demo_login_body ''email'')) = ''demo@sample.com''"
    "trim (field demo_login_body ''password'') = ''1234''"
    unfolding demo_login_body_def field_def by code_simp+
  show "status (login toLowerCase_ascii 1700000000000 demo_login_body two_user_db) = 200"
    "status (login toLowerCase_ascii 1700000000000 demo_login_body other_password_db) = 200"
    by (simp_all add: login_def f Let_def select_user_by_email_def two_user_db_def
        other_password_db_def demo_db_users column_text_def)
qed

theorem password_not_revealed_witness:
  "same_public two_user_db other_password_db \<and>
   users two_user_db \<noteq> users other_password_db \<and>
   me (Some (''Bearer '' @ createToken colon_user 1700000000000)) two_user_db =
     me (Some (''Bearer '' @ createToken colon_user 1700000000000)) other_password_db \<and>
   fst (signup toLowerCase_ascii demo_later_time 1700000000000 duplicate_signup_body two_user_db) =
     fst (signup toLowerCase_ascii demo_later_time 1700000000000 duplicate_signup_body other_password_db) \<and>
   status (login toLowerCase_ascii 1700000000000 demo_login_body two_user_db) =
     status (login toLowerCase_ascii 1700000000000 demo_login_body other_password_db) \<and>
   login toLowerCase_ascii 1700000000000 demo_login_body two_user_db =
     login toLowerCase_ascii 1700000000000 demo_login_body other_password_db \<and>
   ''password'' \<notin> keys (body (login toLowerCase_ascii 1700000000000 demo_login_body two_user_db))"
proof -
  note t = password_not_revealed [of toLowerCase_ascii demo_later_time 1700000000000 demo_login_body two_user_db
      "Some (''Bearer '' @ createToken colon_user 1700000000000)" other_password_db]
  note t' = password_not_revealed [of toLowerCase_ascii demo_later_time 1700000000000 duplicate_signup_body two_user_db
      "Some (''Bearer '' @ createToken colon_user 1700000000000)" other_password_db]
  have s: "status (login toLowerCase_ascii 1700000000000 demo_login_body two_user_db) =
     status (login toLowerCase_ascii 1700000000000 demo_login_body other_password_db)"
    by (simp add: demo_login_both)
  from t t' demo_same_public demo_differ s show ?thesis by blast
qed

subsection \<open>Invariants of the tables\<close>

text \<open>
  The facts about stored rows that the theorems above take as hypotheses hold after
  start-up and are kept by every route: ids are primary keys and stored emails are in
  lower case.  For the emails this takes two facts about \<^verbatim>\<open>toLowerCase\<close>: lowering twice is
  lowering once, and the seed email is in lower case.  The function on ASCII text has
  both.
\<close>

lemma lower_char_idem: "lower_char (lower_char c) = lower_char c"
  by (auto simp: lower_char_def less_eq_char_def)

lemma toLowerCase_ascii_idem: "toLowerCase_ascii (toLowerCase_ascii s) = toLowerCase_ascii s"
  by (simp add: toLowerCase_ascii_def lower_char_idem)

lemma toLowerCase_ascii_seed: "toLowerCase_ascii ''demo@sample.com'' = ''demo@sample.com''"
  by code_simp

lemma stored_lowercase_signup:
  assumes "\<And>s. toLowerCase (toLowerCase s) = toLowerCase s"
    and "stored_lowercase toLowerCase db"
  shows "stored_lowercase toLowerCase (snd (signup toLowerCase now ms b db))"
  using assms
  by (auto simp: signup_def signup_between_def Let_def insert_user_def stored_lowercase_def
      split: option.splits if_splits)

lemma stored_lowercase_startup:
  assumes "toLowerCase ''demo@sample.com'' = ''demo@sample.com''"
  shows "stored_lowercase toLowerCase (startup n1 n2 empty_db)"
  using assms
  by (simp add: stored_lowercase_def startup_def seed_users_def seed_posts_def insert_post_def
      insert_user_def empty_db_def Let_def)

lemma post_routes_keep_users:
  "users (snd (create_post now b db)) = users db"
  "users (snd (update_post_route now i b db)) = users db"
  "users (snd (delete_post_route i db)) = users db"
  by (auto simp: create_post_def insert_post_def update_post_route_def update_post_def
      delete_post_route_def delete_post_def Let_def split: sum.splits)

lemma primary_key_posts:
  assumes "distinct (map p_id (posts db))"
  shows "distinct (map p_id (posts (snd (create_post now b db))))"
    and "distinct (map p_id (posts (snd (update_post_route now i b db))))"
    and "distinct (map p_id (posts (snd (delete_post_route i db))))"
proof -
  have "next_rowid (posts_seq db) (map p_id (posts db)) \<notin> set (map p_id (posts db))"
    using next_rowid_fresh [of _ "map p_id (posts db)" "posts_seq db"] by fastforce
  with assms show "distinct (map p_id (posts (snd (create_post now b db))))"
    by (auto simp: create_post_def insert_post_def Let_def split: sum.splits)
  have "map p_id (posts (fst (update_post db t c ua x))) = map p_id (posts db)" for t c ua x
    by (simp add: update_post_def)
  with assms have "distinct (map p_id (posts (fst (update_post db t c ua x))))" for t c ua x
    by simp
  then have "distinct (map p_id (posts x1))" if "update_post db t c ua x = (x1, n)" for t c ua x x1 n
    using that by (metis fst_conv)
  then show "distinct (map p_id (posts (snd (update_post_route now i b db))))"
    using assms by (auto simp: update_post_route_def Let_def split: sum.splits prod.splits)
  from assms show "distinct (map p_id (posts (snd (delete_post_route i db))))"
    by (auto simp: delete_post_route_def delete_post_def Let_def distinct_map_filter)
qed

lemma primary_key_startup:
  "distinct (map p_id (posts (startup n1 n2 empty_db)))"
  "distinct (map u_id (users (startup n1 n2 empty_db)))"
  by (simp_all add: startup_def seed_users_def seed_posts_def insert_post_def
      insert_user_def empty_db_def next_rowid_def Let_def)

end
